theory Spec2Isabelle
  imports Main "HOL-Library.Finite_Map" "HOL-Library.Char_ord" "HOL-Library.List_Lexorder"
begin

section \<open>Strings\<close>

text \<open>
  Python strings are modelled as \<^typ>\<open>string\<close>; a character stands for a code point below
  256 (the Latin-1 range). The predicates below are \<open>str.isspace\<close> and the line
  boundaries of \<open>str.splitlines\<close> restricted to that range.
\<close>

definition isspace :: "char \<Rightarrow> bool" where
  "isspace c = (c \<in> set [CHR 0x09, CHR 0x0A, CHR 0x0B, CHR 0x0C, CHR 0x0D,
                           CHR 0x1C, CHR 0x1D, CHR 0x1E, CHR 0x1F, CHR 0x20, CHR 0x85, CHR 0xA0])"

definition is_linebreak :: "char \<Rightarrow> bool" where
  "is_linebreak c = (c \<in> set [CHR 0x0A, CHR 0x0B, CHR 0x0C, CHR 0x0D,
                                CHR 0x1C, CHR 0x1D, CHR 0x1E, CHR 0x85])"

text \<open>\<open>str.split()\<close> without arguments: runs of whitespace separate the tokens.\<close>

function str_split :: "string \<Rightarrow> string list" where
  "str_split s =
     (case dropWhile isspace s of
        [] \<Rightarrow> []
      | c # cs \<Rightarrow> (c # takeWhile (\<lambda>x. \<not> isspace x) cs) # str_split (dropWhile (\<lambda>x. \<not> isspace x) cs))"
  by pat_completeness auto
termination
proof (relation "measure length")
  show "wf (measure length)" by simp
next
  fix s :: string and c cs
  assume "dropWhile isspace s = c # cs"
  then have "length s \<ge> Suc (length cs)"
    by (metis length_Cons length_dropWhile_le)
  moreover have "length (dropWhile (\<lambda>x. \<not> isspace x) cs) \<le> length cs"
    by (rule length_dropWhile_le)
  ultimately show "(dropWhile (\<lambda>x. \<not> isspace x) cs, s) \<in> measure length" by simp
qed

text \<open>
  \<open>str.splitlines()\<close>: a line ends at a line boundary; \<open>\\r\\n\<close> counts as one boundary, and
  no empty line follows a final boundary.
\<close>

definition after_linebreak :: "string \<Rightarrow> string" where
  "after_linebreak rest =
     (case rest of
        [] \<Rightarrow> []
      | c # cs \<Rightarrow> (case cs of
                     d # ds \<Rightarrow> if c = CHR 0x0D \<and> d = CHR 0x0A then ds else cs
                   | [] \<Rightarrow> cs))"

function splitlines :: "string \<Rightarrow> string list" where
  "splitlines s =
     (if s = [] then []
      else takeWhile (\<lambda>x. \<not> is_linebreak x) s
           # splitlines (after_linebreak (dropWhile (\<lambda>x. \<not> is_linebreak x) s)))"
  by pat_completeness auto
termination
proof (relation "measure length")
  show "wf (measure length)" by simp
next
  fix s :: string
  assume ne: "s \<noteq> []"
  define r where "r = dropWhile (\<lambda>x. \<not> is_linebreak x) s"
  have le: "length r \<le> length s"
    unfolding r_def by (rule length_dropWhile_le)
  have "length (after_linebreak r) < length s"
  proof (cases r)
    case Nil
    then show ?thesis using ne by (simp add: after_linebreak_def)
  next
    case (Cons c cs)
    then have "length (after_linebreak r) < length r"
      by (auto simp: after_linebreak_def split: list.splits)
    then show ?thesis using le by simp
  qed
  then show "(after_linebreak (dropWhile (\<lambda>x. \<not> is_linebreak x) s), s) \<in> measure length"
    by (simp add: r_def)
qed

declare str_split.simps [simp del] splitlines.simps [simp del]

definition lstrip :: "string \<Rightarrow> string" where
  "lstrip s = dropWhile isspace s"

definition startswith :: "string \<Rightarrow> string \<Rightarrow> bool" where
  "startswith s prefix = (take (length prefix) s = prefix)"

section \<open>Text statistics\<close>

definition count_words_and_headings :: "string \<Rightarrow> nat \<times> nat" where
  "count_words_and_headings markdown =
     (let words = length (str_split markdown);
          headings = length (filter (\<lambda>line. startswith (lstrip line) ''#'') (splitlines markdown))
      in (words, headings))"

text \<open>
  The specification's words: a whitespace-delimited token starts at every position that
  holds a non-whitespace character and is the first position or follows whitespace; a
  heading line is one whose first non-whitespace character is the marker \<open>#\<close>.
\<close>

definition token_starts :: "string \<Rightarrow> nat list" where
  "token_starts s =
     filter (\<lambda>i. \<not> isspace (s ! i) \<and> (i = 0 \<or> isspace (s ! (i - 1)))) [0..<length s]"

definition first_nonspace_is_hash :: "string \<Rightarrow> bool" where
  "first_nonspace_is_hash line =
     (\<exists>i \<in> {0..<length line}. line ! i = CHR ''#'' \<and> (\<forall>j \<in> {0..<i}. isspace (line ! j)))"


text \<open>
  \<open>str.lower()\<close> on the Latin-1 range: the letters A to Z and the accented capitals
  0xC0 to 0xDE (but not the multiplication sign 0xD7) move up by 32.
\<close>

definition lower_char :: "char \<Rightarrow> char" where
  "lower_char c =
     (let n = (of_char c :: nat) in
      if (65 \<le> n \<and> n \<le> 90) \<or> (192 \<le> n \<and> n \<le> 222 \<and> n \<noteq> 215)
      then char_of (n + 32) else c)"

definition lower :: "string \<Rightarrow> string" where
  "lower s = map lower_char s"

text \<open>\<open>s.lstrip('.')\<close>: every leading dot is removed.\<close>

definition lstrip_dots :: "string \<Rightarrow> string" where
  "lstrip_dots s = dropWhile (\<lambda>c. c = CHR ''.'') s"

text \<open>Decimal rendering of Python integers, as an f-string field prints them.\<close>

definition digit_char :: "nat \<Rightarrow> char" where
  "digit_char d = ''0123456789'' ! d"

fun str_nat :: "nat \<Rightarrow> string" where
  "str_nat n = (if n < 10 then [digit_char n] else str_nat (n div 10) @ [digit_char (n mod 10)])"

declare str_nat.simps [simp del]

definition str_int :: "int \<Rightarrow> string" where
  "str_int i = (if i < 0 then ''-'' @ str_nat (nat (- i)) else str_nat (nat i))"

text \<open>\<open>sep.join(parts)\<close>.\<close>

fun join :: "string \<Rightarrow> string list \<Rightarrow> string" where
  "join sep [] = []"
| "join sep [x] = x"
| "join sep (x # y # ys) = x @ sep @ join sep (y # ys)"

section \<open>Paths\<close>

text \<open>
  A \<open>pathlib.Path\<close> that has been resolved is the list of its components below the
  filesystem root; the empty list is the root \<open>/\<close> itself. Names of directory entries
  are never empty and hold no separator.
\<close>

type_synonym path = "string list"

definition path_name :: "path \<Rightarrow> string" where
  "path_name p = (if p = [] then [] else last p)"

definition parent :: "path \<Rightarrow> path" where
  "parent p = butlast p"

definition path_str :: "path \<Rightarrow> string" where
  "path_str p = ''/'' @ join ''/'' p"

text \<open>\<open>name.rfind('.')\<close>: the index of the last dot, if there is one.\<close>

definition rfind_dot :: "string \<Rightarrow> nat option" where
  "rfind_dot name =
     (if CHR ''.'' \<in> set name
      then Some (length name - 1 - length (takeWhile (\<lambda>c. c \<noteq> CHR ''.'') (rev name)))
      else None)"

text \<open>
  \<open>PurePath.suffix\<close> and \<open>PurePath.stem\<close> (Python 3.8 to 3.13): the last dot splits the
  name unless it is the first or the last character.
\<close>

definition suffix :: "path \<Rightarrow> string" where
  "suffix p =
     (let name = path_name p in
      case rfind_dot name of
        Some i \<Rightarrow> if 0 < i \<and> i < length name - 1 then drop i name else []
      | None \<Rightarrow> [])"

definition stem :: "path \<Rightarrow> string" where
  "stem p =
     (let name = path_name p in
      case rfind_dot name of
        Some i \<Rightarrow> if 0 < i \<and> i < length name - 1 then take i name else name
      | None \<Rightarrow> name)"

text \<open>
  \<open>PurePath.with_suffix\<close>. pathlib raises \<open>ValueError\<close> for an empty name and for a
  suffix that is not a dot followed by text without a separator; every call in this
  program passes \<open>.md\<close> or a suffix ending in \<open>.tmp\<close> on a path that ends in a file
  name, so the model has no such branch.
\<close>

definition with_suffix :: "path \<Rightarrow> string \<Rightarrow> path" where
  "with_suffix p new_suffix =
     (let name = path_name p; old_suffix = suffix p in
      parent p @ [if old_suffix = [] then name @ new_suffix
                  else take (length name - length old_suffix) name @ new_suffix])"

definition ext_of :: "path \<Rightarrow> string" where
  "ext_of p = lstrip_dots (lower (suffix p))"

definition md_sibling_dest :: "path \<Rightarrow> path" where
  "md_sibling_dest root = parent root @ [path_name root @ ''-md'']"

text \<open>
  \<open>src.relative_to(root)\<close> raises when \<open>src\<close> is not below \<open>root\<close>; the traversal only
  yields paths below the root it walks, and drops the root's components here.
\<close>

definition derive_output_path :: "path \<Rightarrow> path \<Rightarrow> path \<Rightarrow> path" where
  "derive_output_path src root dest_root =
     (let rel = drop (length root) src;
          target = dest_root @ rel
      in with_suffix target ''.md'')"

section \<open>Traversal of the source tree\<close>

text \<open>
  The source tree is the snapshot that \<open>os.walk\<close> lists: the entries of a directory in
  the order \<open>scandir\<close> returns them. A file carries the size \<open>os.stat\<close> reports for
  it, or \<open>None\<close> when \<open>os.stat\<close> raises \<open>OSError\<close>. A directory that the walk lists but
  does not enter (a symbolic link to a directory, a directory it cannot read) yields
  nothing and adds to no count, so the snapshot leaves it out. The destination is taken
  to lie outside the source root, so that what a run writes is not seen by its own walk.
\<close>

datatype entry = File string "nat option" | Dir string "entry list"

fun entry_name :: "entry \<Rightarrow> string" where
  "entry_name (File n sz) = n"
| "entry_name (Dir n es) = n"

fun dir_names :: "entry list \<Rightarrow> string list" where
  "dir_names [] = []"
| "dir_names (Dir n es # rest) = n # dir_names rest"
| "dir_names (File n sz # rest) = dir_names rest"

fun file_names :: "entry list \<Rightarrow> (string \<times> nat option) list" where
  "file_names [] = []"
| "file_names (File n sz # rest) = (n, sz) # file_names rest"
| "file_names (Dir n es # rest) = file_names rest"

text \<open>
  \<open>os.walk(top)\<close>, top-down: each directory yields its path, the names of its
  subdirectories and the names of its other entries, and the walk then enters the
  subdirectories the caller left in \<open>dirnames\<close>. Both callers prune \<open>dirnames\<close> in place
  with a test on the name, which is the parameter \<open>keep\<close>. A file name is paired with
  its \<open>os.stat\<close> size.
\<close>

fun os_walk :: "(string \<Rightarrow> bool) \<Rightarrow> path \<Rightarrow> entry list
                 \<Rightarrow> (path \<times> string list \<times> (string \<times> nat option) list) list"
  and walk_subdirs :: "(string \<Rightarrow> bool) \<Rightarrow> path \<Rightarrow> entry list
                 \<Rightarrow> (path \<times> string list \<times> (string \<times> nat option) list) list" where
  "os_walk keep top_dir entries =
     (top_dir, filter keep (dir_names entries), file_names entries)
     # walk_subdirs keep top_dir entries"
| "walk_subdirs keep top_dir [] = []"
| "walk_subdirs keep top_dir (File n sz # rest) = walk_subdirs keep top_dir rest"
| "walk_subdirs keep top_dir (Dir n es # rest) =
     (if keep n then os_walk keep (top_dir @ [n]) es else []) @ walk_subdirs keep top_dir rest"

declare os_walk.simps [simp del]

definition iter_files :: "path \<Rightarrow> entry list \<Rightarrow> bool \<Rightarrow> path list" where
  "iter_files root entries skip_hidden =
     concat (map (\<lambda>(dirpath, dirnames, filenames).
                    map (\<lambda>(fn, sz). dirpath @ [fn])
                        (filter (\<lambda>(fn, sz). \<not> (skip_hidden \<and> startswith fn ''.'')) filenames))
                 (os_walk (\<lambda>d. \<not> (skip_hidden \<and> startswith d ''.'')) root entries))"

record preflight_stats =
  ps_root :: path
  ps_dirs :: nat
  ps_files :: nat
  ps_bytes :: nat

fun preflight_sizes :: "bool \<Rightarrow> (string \<times> nat option) list \<Rightarrow> nat \<Rightarrow> nat" where
  "preflight_sizes skip_hidden [] total_bytes = total_bytes"
| "preflight_sizes skip_hidden ((f, sz) # rest) total_bytes =
     (if skip_hidden \<and> startswith f ''.'' then preflight_sizes skip_hidden rest total_bytes
      else case sz of
             Some st_size \<Rightarrow> preflight_sizes skip_hidden rest (total_bytes + st_size)
           | None \<Rightarrow> preflight_sizes skip_hidden rest total_bytes)"

fun preflight_loop :: "bool \<Rightarrow> (path \<times> string list \<times> (string \<times> nat option) list) list
                       \<Rightarrow> nat \<times> nat \<times> nat \<Rightarrow> nat \<times> nat \<times> nat" where
  "preflight_loop skip_hidden [] acc = acc"
| "preflight_loop skip_hidden ((dirpath, dirnames, filenames) # rest) (dirs, files, total_bytes) =
     preflight_loop skip_hidden rest
       (dirs + 1,
        files + length (filter (\<lambda>(f, sz). \<not> (skip_hidden \<and> startswith f ''.'')) filenames),
        preflight_sizes skip_hidden filenames total_bytes)"

definition preflight :: "path \<Rightarrow> entry list \<Rightarrow> bool \<Rightarrow> preflight_stats" where
  "preflight root entries skip_hidden =
     (case preflight_loop skip_hidden
             (os_walk (\<lambda>d. \<not> (skip_hidden \<and> startswith d ''.'')) root entries) (0, 0, 0) of
        (dirs, files, total_bytes) \<Rightarrow>
          \<lparr>ps_root = root, ps_dirs = dirs, ps_files = files, ps_bytes = total_bytes\<rparr>)"

text \<open>The tree without the entries, at any depth, whose name starts with a dot.\<close>

fun strip_hidden :: "entry list \<Rightarrow> entry list" where
  "strip_hidden [] = []"
| "strip_hidden (File n sz # rest) =
     (if startswith n ''.'' then strip_hidden rest else File n sz # strip_hidden rest)"
| "strip_hidden (Dir n es # rest) =
     (if startswith n ''.'' then strip_hidden rest else Dir n (strip_hidden es) # strip_hidden rest)"


section \<open>Thresholds and exceptions\<close>

record thresholds =
  max_dirs :: int
  max_files :: int
  max_bytes :: int

definition default_thresholds :: thresholds where
  "default_thresholds = \<lparr>max_dirs = 16, max_files = 128, max_bytes = 300 * 1024 * 1024\<rparr>"

text \<open>
  The exceptions a run can meet: whatever the converter raises (any \<open>Exception\<close>, kept
  by its \<open>str\<close>), the \<open>OSError\<close> of a filesystem call with its errno and the one or two
  file names the call was given (\<open>FileNotFoundError\<close> is errno \<open>ENOENT\<close>,
  \<open>FileExistsError\<close> is \<open>EEXIST\<close>, \<open>NotADirectoryError\<close> is \<open>ENOTDIR\<close>,
  \<open>IsADirectoryError\<close> is \<open>EISDIR\<close>), the \<open>NotADirectoryError\<close> that \<open>bulk_convert\<close>
  raises for a bad root, and \<open>PreflightExceeded\<close> with the two attributes it stores.
\<close>

datatype os_errno = ENOENT | EEXIST | ENOTDIR | EISDIR

datatype py_exception =
    ConverterError string
  | OSError os_errno path "path option"
  | RootNotADirectory path
  | PreflightExceeded preflight_stats thresholds

text \<open>
  \<open>repr\<close> of a string: in single quotes, or in double quotes when the string holds a
  single quote and no double quote; the quote used and the backslash are escaped, tab,
  newline and carriage return are written \<open>\t\<close>, \<open>\n\<close>, \<open>\r\<close>, and any other
  character that is not printable is written \<open>\xhh\<close>.
\<close>

definition py_printable :: "char \<Rightarrow> bool" where
  "py_printable c =
     (let n = (of_char c :: nat) in (32 \<le> n \<and> n < 127) \<or> (161 \<le> n \<and> n \<noteq> 173))"

definition hex_digit :: "nat \<Rightarrow> char" where
  "hex_digit d = ''0123456789abcdef'' ! d"

definition repr_char :: "char \<Rightarrow> char \<Rightarrow> string" where
  "repr_char quote c =
     (if c = quote \<or> c = CHR 0x5C then [CHR 0x5C, c]
      else if c = CHR 0x09 then [CHR 0x5C, CHR ''t'']
      else if c = CHR 0x0A then [CHR 0x5C, CHR ''n'']
      else if c = CHR 0x0D then [CHR 0x5C, CHR ''r'']
      else if \<not> py_printable c
        then [CHR 0x5C, CHR ''x'', hex_digit ((of_char c :: nat) div 16),
              hex_digit ((of_char c :: nat) mod 16)]
      else [c])"

definition py_repr :: "string \<Rightarrow> string" where
  "py_repr s =
     (let quote = (if CHR 0x27 \<in> set s \<and> CHR 0x22 \<notin> set s then CHR 0x22 else CHR 0x27)
      in [quote] @ concat (map (repr_char quote) s) @ [quote])"

fun errno_number :: "os_errno \<Rightarrow> nat" where
  "errno_number ENOENT = 2"
| "errno_number EEXIST = 17"
| "errno_number ENOTDIR = 20"
| "errno_number EISDIR = 21"

fun errno_text :: "os_errno \<Rightarrow> string" where
  "errno_text ENOENT = ''No such file or directory''"
| "errno_text EEXIST = ''File exists''"
| "errno_text ENOTDIR = ''Not a directory''"
| "errno_text EISDIR = ''Is a directory''"

text \<open>
  \<open>str(e)\<close>. The message of \<open>PreflightExceeded\<close> and of the bad-root error are the
  f-strings of the source. An \<open>OSError\<close> prints its errno (the numbers and texts are
  those of Linux), and the \<open>repr\<close> of its file name, or of both names with an arrow
  between them.
\<close>

fun exception_str :: "py_exception \<Rightarrow> string" where
  "exception_str (ConverterError msg) = msg"
| "exception_str (OSError errno p None) =
     ''[Errno '' @ str_nat (errno_number errno) @ ''] '' @ errno_text errno @ '': ''
     @ py_repr (path_str p)"
| "exception_str (OSError errno p (Some p2)) =
     ''[Errno '' @ str_nat (errno_number errno) @ ''] '' @ errno_text errno @ '': ''
     @ py_repr (path_str p) @ '' -> '' @ py_repr (path_str p2)"
| "exception_str (RootNotADirectory p) =
     ''Root path does not exist or is not a directory: '' @ path_str p"
| "exception_str (PreflightExceeded stats th) =
     ''Preflight limits exceeded: dirs='' @ str_nat (ps_dirs stats) @ ''/'' @ str_int (max_dirs th)
     @ '', files='' @ str_nat (ps_files stats) @ ''/'' @ str_int (max_files th)
     @ '', bytes='' @ str_nat (ps_bytes stats) @ ''/'' @ str_int (max_bytes th)"

section \<open>The filesystem\<close>

text \<open>
  The filesystem outside the source tree: a finite map from the paths that exist to
  what is there, a directory or a regular file with its content. The root \<open>/\<close> is
  always a directory. A filesystem is well formed when the parent of every path it
  holds is a directory; the operations keep it so.
\<close>

datatype node = DirNode | FileNode string

type_synonym filesystem = "(path, node) fmap"

definition path_exists :: "filesystem \<Rightarrow> path \<Rightarrow> bool" where
  "path_exists fs p = (p = [] \<or> fmlookup fs p \<noteq> None)"

definition is_dir :: "filesystem \<Rightarrow> path \<Rightarrow> bool" where
  "is_dir fs p = (p = [] \<or> fmlookup fs p = Some DirNode)"

definition wf_fs :: "filesystem \<Rightarrow> bool" where
  "wf_fs fs = (\<forall>p \<in> fmdom' fs. p \<noteq> [] \<and> is_dir fs (parent p))"

text \<open>
  Whether the walk up from \<open>q\<close> meets a regular file first: the kernel then answers
  \<open>ENOTDIR\<close> for a path through \<open>q\<close>, and \<open>ENOENT\<close> when it meets a directory first and
  \<open>q\<close> is missing.
\<close>

function nearest_is_file :: "filesystem \<Rightarrow> path \<Rightarrow> bool" where
  "nearest_is_file fs q =
     (if q = [] then False
      else case fmlookup fs q of
             Some (FileNode content) \<Rightarrow> True
           | Some DirNode \<Rightarrow> False
           | None \<Rightarrow> nearest_is_file fs (parent q))"
  by pat_completeness auto
termination
  by (relation "measure (\<lambda>(fs, q). length q)") (auto simp: parent_def)

declare nearest_is_file.simps [simp del]

text \<open>\<open>os.mkdir(p)\<close>.\<close>

definition os_mkdir :: "filesystem \<Rightarrow> path \<Rightarrow> py_exception + filesystem" where
  "os_mkdir fs p =
     (if path_exists fs p then Inl (OSError EEXIST p None)
      else if nearest_is_file fs (parent p) then Inl (OSError ENOTDIR p None)
      else if \<not> path_exists fs (parent p) then Inl (OSError ENOENT p None)
      else Inr (fmupd p DirNode fs))"

text \<open>\<open>except FileNotFoundError\<close>: the exception is an \<open>OSError\<close> with errno \<open>ENOENT\<close>.\<close>

fun is_file_not_found :: "py_exception \<Rightarrow> bool" where
  "is_file_not_found (OSError errno p p2) = (errno = ENOENT)"
| "is_file_not_found e = False"

text \<open>
  \<open>Path.mkdir(parents=True, exist_ok=True)\<close>: \<open>os.mkdir\<close>; when that raises
  \<open>FileNotFoundError\<close> the parent is made first (in the same way) and \<open>os.mkdir\<close> is
  tried again; any other \<open>OSError\<close> is swallowed when the path is a directory.
\<close>

function mkdir_parents :: "filesystem \<Rightarrow> path \<Rightarrow> py_exception + filesystem" where
  "mkdir_parents fs p =
     (case os_mkdir fs p of
        Inr fs' \<Rightarrow> Inr fs'
      | Inl e \<Rightarrow>
          if is_file_not_found e then
            (if parent p = p then Inl e
             else case mkdir_parents fs (parent p) of
                    Inl e1 \<Rightarrow> Inl e1
                  | Inr fs' \<Rightarrow>
                      (case os_mkdir fs' p of
                         Inr fs'' \<Rightarrow> Inr fs''
                       | Inl e2 \<Rightarrow>
                           if is_file_not_found e2 then Inl e2
                           else if is_dir fs' p then Inr fs' else Inl e2))
          else if is_dir fs p then Inr fs else Inl e)"
  by pat_completeness auto
termination
proof (relation "measure (\<lambda>(fs, p). length p)")
  show "wf (measure (\<lambda>(fs, p). length p))" by simp
next
  fix fs :: filesystem and p :: path and e
  assume "parent p \<noteq> p"
  then have "p \<noteq> []" by (auto simp: parent_def)
  then show "((fs, parent p), fs, p) \<in> measure (\<lambda>(fs, p). length p)"
    by (simp add: parent_def)
qed

declare mkdir_parents.simps [simp del]

text \<open>\<open>io.open(p, "w")\<close>: the file is created, or truncated when it exists.\<close>

definition open_write :: "filesystem \<Rightarrow> path \<Rightarrow> py_exception + filesystem" where
  "open_write fs p =
     (if is_dir fs p then Inl (OSError EISDIR p None)
      else if nearest_is_file fs (parent p) then Inl (OSError ENOTDIR p None)
      else if \<not> path_exists fs (parent p) then Inl (OSError ENOENT p None)
      else Inr (fmupd p (FileNode []) fs))"

text \<open>
  \<open>os.replace(src, dst)\<close> for a regular file \<open>src\<close> (the call is only made on the
  temporary file just written): in one step \<open>dst\<close> holds the content of \<open>src\<close> and
  \<open>src\<close> is gone. A directory at \<open>dst\<close> is not replaced.
\<close>

definition os_replace :: "filesystem \<Rightarrow> path \<Rightarrow> path \<Rightarrow> py_exception + filesystem" where
  "os_replace fs src dst =
     (case fmlookup fs src of
        None \<Rightarrow> Inl (OSError ENOENT src (Some dst))
      | Some DirNode \<Rightarrow> Inl (OSError EISDIR src (Some dst))
      | Some (FileNode content) \<Rightarrow>
          if is_dir fs dst then Inl (OSError EISDIR src (Some dst))
          else if nearest_is_file fs (parent dst) then Inl (OSError ENOTDIR src (Some dst))
          else if \<not> path_exists fs (parent dst) then Inl (OSError ENOENT src (Some dst))
          else if src = dst then Inr fs
          else Inr (fmdrop src (fmupd dst (FileNode content) fs)))"

text \<open>
  \<open>_write_atomic(dest_path, data)\<close>. The result is the filesystem the call leaves and
  the exception it raised, if any.
\<close>

definition tmp_path :: "path \<Rightarrow> path" where
  "tmp_path dest_path = with_suffix dest_path (suffix dest_path @ ''.tmp'')"

definition write_atomic :: "filesystem \<Rightarrow> path \<Rightarrow> string \<Rightarrow> filesystem \<times> py_exception option" where
  "write_atomic fs dest_path data =
     (case mkdir_parents fs (parent dest_path) of
        Inl e \<Rightarrow> (fs, Some e)
      | Inr fs1 \<Rightarrow>
          (let tmp = tmp_path dest_path in
           case open_write fs1 tmp of
             Inl e \<Rightarrow> (fs1, Some e)
           | Inr fs2 \<Rightarrow>
               (let fs3 = fmupd tmp (FileNode data) fs2 in
                case os_replace fs3 tmp dest_path of
                  Inl e \<Rightarrow> (fs3, Some e)
                | Inr fs4 \<Rightarrow> (fs4, None))))"

section \<open>Conflict renaming\<close>

definition is_digit :: "char \<Rightarrow> bool" where
  "is_digit c = (c \<in> set ''0123456789'')"

text \<open>
  The pattern \<open>" \((\d+)\)$"\<close> matched at the start of \<open>s\<close>: a space, an opening
  parenthesis, one or more digits, a closing parenthesis, and then the end of the string
  or a newline that ends the string (which \<open>$\<close> accepts).
\<close>

definition counter_match :: "string \<Rightarrow> bool" where
  "counter_match s =
     (case s of
        c1 # c2 # rest \<Rightarrow>
          c1 = CHR '' '' \<and> c2 = CHR ''('' \<and> takeWhile is_digit rest \<noteq> [] \<and>
          (dropWhile is_digit rest = '')'' \<or> dropWhile is_digit rest = [CHR '')'', CHR 0x0A])
      | _ \<Rightarrow> False)"

text \<open>\<open>pattern.search(stem)\<close>: the start of the leftmost match.\<close>

fun counter_search :: "string \<Rightarrow> nat option" where
  "counter_search [] = None"
| "counter_search (c # cs) =
     (if counter_match (c # cs) then Some 0 else map_option Suc (counter_search cs))"

definition base_stem :: "path \<Rightarrow> string" where
  "base_stem p =
     (case counter_search (stem p) of
        Some start \<Rightarrow> take start (stem p)
      | None \<Rightarrow> stem p)"

definition rename_candidate :: "path \<Rightarrow> nat \<Rightarrow> path" where
  "rename_candidate p i = parent p @ [base_stem p @ '' ('' @ str_nat i @ '')'' @ suffix p]"

lemma str_nat_bound: "n < 10 ^ length (str_nat n)"
proof (induction n rule: str_nat.induct)
  case (1 n)
  show ?case
  proof (cases "n < 10")
    case True
    then show ?thesis by (subst str_nat.simps) simp
  next
    case False
    then have "n div 10 < 10 ^ length (str_nat (n div 10))" using 1 by simp
    then have "n < 10 * 10 ^ length (str_nat (n div 10))" by simp
    then show ?thesis using False by (subst str_nat.simps) simp
  qed
qed

lemma rename_candidate_bound:
  assumes "path_exists fs (rename_candidate p i)"
  shows "i < 10 ^ (\<Sum>q \<in> fmdom' fs. length (last q))"
proof -
  let ?c = "rename_candidate p i"
  have "?c \<noteq> []" by (simp add: rename_candidate_def)
  with assms have "?c \<in> fmdom' fs"
    by (auto simp: path_exists_def fmlookup_dom'_iff)
  then have "length (last ?c) \<le> (\<Sum>q \<in> fmdom' fs. length (last q))"
    using member_le_sum[of ?c "fmdom' fs" "\<lambda>q. length (last q)"] by simp
  moreover have "length (str_nat i) \<le> length (last ?c)"
    by (simp add: rename_candidate_def)
  ultimately have "length (str_nat i) \<le> (\<Sum>q \<in> fmdom' fs. length (last q))"
    by simp
  then have "(10::nat) ^ length (str_nat i) \<le> 10 ^ (\<Sum>q \<in> fmdom' fs. length (last q))"
    by (rule power_increasing) simp
  with str_nat_bound[of i] show ?thesis by (rule less_le_trans)
qed

text \<open>
  The loop of \<open>_unique_path\<close>. It ends because the filesystem holds finitely many paths
  and the candidates grow in length.
\<close>

function unique_loop :: "filesystem \<Rightarrow> path \<Rightarrow> nat \<Rightarrow> path" where
  "unique_loop fs p i =
     (let cand = rename_candidate p i in
      if \<not> path_exists fs cand then cand else unique_loop fs p (i + 1))"
  by pat_completeness auto
termination
proof (relation "measure (\<lambda>(fs, p, i). 10 ^ (\<Sum>q \<in> fmdom' fs. length (last q)) - i)")
  show "wf (measure (\<lambda>(fs, p, i). 10 ^ (\<Sum>q \<in> fmdom' fs. length (last q)) - i))" by simp
next
  fix fs :: filesystem and p :: path and i :: nat and cand
  assume "cand = rename_candidate p i" and "\<not> \<not> path_exists fs cand"
  then have "i < 10 ^ (\<Sum>q \<in> fmdom' fs. length (last q))"
    using rename_candidate_bound by simp
  then show "((fs, p, i + 1), fs, p, i)
      \<in> measure (\<lambda>(fs, p, i). 10 ^ (\<Sum>q \<in> fmdom' fs. length (last q)) - i)"
    by simp
qed

declare unique_loop.simps [simp del]

definition unique_path :: "filesystem \<Rightarrow> path \<Rightarrow> path" where
  "unique_path fs p = (if \<not> path_exists fs p then p else unique_loop fs p 1)"

section \<open>The states an atomic write passes through\<close>

text \<open>
  The filesystem after each system call of \<open>Path.mkdir(parents=True, exist_ok=True)\<close>
  that changed it: one state for every directory made.
\<close>

function mkdir_parents_states :: "filesystem \<Rightarrow> path \<Rightarrow> filesystem list" where
  "mkdir_parents_states fs p =
     (case os_mkdir fs p of
        Inr fs' \<Rightarrow> [fs']
      | Inl e \<Rightarrow>
          if is_file_not_found e \<and> parent p \<noteq> p then
            mkdir_parents_states fs (parent p)
            @ (case mkdir_parents fs (parent p) of
                 Inl e1 \<Rightarrow> []
               | Inr fs' \<Rightarrow> (case os_mkdir fs' p of Inr fs'' \<Rightarrow> [fs''] | Inl e2 \<Rightarrow> []))
          else [])"
  by pat_completeness auto
termination
proof (relation "measure (\<lambda>(fs, p). length p)")
  show "wf (measure (\<lambda>(fs, p). length p))" by simp
next
  fix fs :: filesystem and p :: path and e
  assume "is_file_not_found e \<and> parent p \<noteq> p"
  then have "p \<noteq> []" by (auto simp: parent_def)
  then show "((fs, parent p), fs, p) \<in> measure (\<lambda>(fs, p). length p)"
    by (simp add: parent_def)
qed

declare mkdir_parents_states.simps [simp del]

text \<open>
  Every state of the filesystem from the call of \<open>_write_atomic\<close> to its return or
  raise: the state before, the states of the directory creation, the temporary file
  opened (empty), the temporary file holding each longer prefix of the data as the
  buffered write reaches the disk, and the state after \<open>os.replace\<close>.
\<close>

definition write_atomic_states :: "filesystem \<Rightarrow> path \<Rightarrow> string \<Rightarrow> filesystem list" where
  "write_atomic_states fs dest_path data =
     fs # mkdir_parents_states fs (parent dest_path)
     @ (case mkdir_parents fs (parent dest_path) of
          Inl e \<Rightarrow> []
        | Inr fs1 \<Rightarrow>
            (let tmp = tmp_path dest_path in
             case open_write fs1 tmp of
               Inl e \<Rightarrow> []
             | Inr fs2 \<Rightarrow>
                 map (\<lambda>n. fmupd tmp (FileNode (take n data)) fs2) [0..<Suc (length data)]
                 @ (case os_replace (fmupd tmp (FileNode data) fs2) tmp dest_path of
                      Inl e \<Rightarrow> []
                    | Inr fs4 \<Rightarrow> [fs4])))"

section \<open>Results of a bulk run\<close>

datatype status = Converted | Skipped | Failed

record bulk_file_result =
  fr_src :: path
  fr_dest :: "path option"
  fr_status :: status
  fr_reason :: "string option"
  fr_words :: "nat option"
  fr_headings :: "nat option"

record bulk_result =
  br_root :: path
  br_dest :: path
  br_files :: "bulk_file_result list"
  br_converted :: nat
  br_skipped :: nat
  br_failed :: nat
  br_total_words :: nat
  br_total_headings :: nat

definition skipped_result :: "path \<Rightarrow> string \<Rightarrow> bulk_file_result" where
  "skipped_result file_path why =
     \<lparr>fr_src = file_path, fr_dest = None, fr_status = Skipped, fr_reason = Some why,
      fr_words = None, fr_headings = None\<rparr>"

definition failed_result :: "path \<Rightarrow> string \<Rightarrow> bulk_file_result" where
  "failed_result file_path why =
     \<lparr>fr_src = file_path, fr_dest = None, fr_status = Failed, fr_reason = Some why,
      fr_words = None, fr_headings = None\<rparr>"

definition converted_result :: "path \<Rightarrow> path \<Rightarrow> nat \<Rightarrow> nat \<Rightarrow> bulk_file_result" where
  "converted_result file_path final_out words headings =
     \<lparr>fr_src = file_path, fr_dest = Some final_out, fr_status = Converted, fr_reason = None,
      fr_words = Some words, fr_headings = Some headings\<rparr>"

section \<open>The report\<close>

definition newline :: string where
  "newline = [CHR 0x0A]"

text \<open>The keys of a dictionary in the order of their first insertion.\<close>

definition first_occurrences :: "'a list \<Rightarrow> 'a list" where
  "first_occurrences xs = rev (remdups (rev xs))"

definition count_or_zero :: "nat option \<Rightarrow> nat" where
  "count_or_zero c = (case c of Some n \<Rightarrow> n | None \<Rightarrow> 0)"

definition converted_with_dest :: "bulk_file_result \<Rightarrow> bool" where
  "converted_with_dest fr = (fr_status fr = Converted \<and> fr_dest fr \<noteq> None)"

text \<open>The lines of one source directory: the converted files by extension, then the totals.\<close>

definition report_directory :: "bulk_file_result list \<Rightarrow> path \<Rightarrow> string list" where
  "report_directory rs d =
     (let mine = filter (\<lambda>fr. converted_with_dest fr \<and> parent (fr_src fr) = d) rs;
          exts = sort (first_occurrences (map (\<lambda>fr. ext_of (fr_src fr)) mine))
      in [''### '' @ path_str d]
         @ (if exts \<noteq> []
            then ''- Files converted by type:''
                 # map (\<lambda>ext. ''  - .'' @ ext @ '': ''
                                @ str_nat (length (filter (\<lambda>fr. ext_of (fr_src fr) = ext) mine))) exts
            else [])
         @ [''- Documents: '' @ str_nat (length mine),
            ''- Words: '' @ str_nat (sum_list (map (\<lambda>fr. count_or_zero (fr_words fr)) mine)),
            ''- Headings: '' @ str_nat (sum_list (map (\<lambda>fr. count_or_zero (fr_headings fr)) mine))
              @ newline])"

definition report_error_line :: "bulk_file_result \<Rightarrow> string" where
  "report_error_line fr =
     ''- '' @ path_str (fr_src fr) @ '': ''
     @ (case fr_reason fr of
          Some why \<Rightarrow> if why = [] then ''unknown error'' else why
        | None \<Rightarrow> ''unknown error'')"

definition make_report :: "bulk_result \<Rightarrow> string" where
  "make_report result =
     (let rs = br_files result;
          dirs = sort_key path_str
                   (first_occurrences (map (\<lambda>fr. parent (fr_src fr)) (filter converted_with_dest rs)));
          errors = filter (\<lambda>fr. \<not> converted_with_dest fr \<and> fr_status fr = Failed) rs;
          lines =
            [''# Bulk Conversion Report'' @ newline,
             ''Root: '' @ path_str (br_root result) @ newline,
             ''Destination: '' @ path_str (br_dest result) @ newline,
             [],
             ''## Summary'' @ newline,
             ''- Converted: '' @ str_nat (br_converted result),
             ''- Skipped: '' @ str_nat (br_skipped result),
             ''- Failed: '' @ str_nat (br_failed result),
             ''- Total words: '' @ str_nat (br_total_words result),
             ''- Total headings: '' @ str_nat (br_total_headings result) @ newline,
             [],
             ''## By Directory'' @ newline]
            @ concat (map (report_directory rs) dirs)
            @ (if errors \<noteq> [] then (''## Errors'' @ newline) # map report_error_line errors else [])
      in join newline lines @ newline)"

section \<open>The conversion loop\<close>

datatype conflict_policy = Rename | Skip

text \<open>
  What a run does besides writing files is kept in a log: each call of the confirmation
  callback and each call of the converter, in order.
\<close>

datatype event = ConfirmCalled preflight_stats thresholds | ConvertCalled path

text \<open>
  The converter is a parameter: \<open>convert_local\<close> followed by reading the Markdown text
  of its result, which gives the text or raises an \<open>Exception\<close>. It is taken to depend
  on the path alone, since a run does not write into the source tree.
\<close>

type_synonym converter = "path \<Rightarrow> py_exception + string"

record bulk_args =
  arg_root :: path
  arg_dest :: "path option"
  arg_include_ext :: "string set option"
  arg_exclude_ext :: "string set option"
  arg_on_conflict :: conflict_policy
  arg_continue_on_error :: bool
  arg_thresholds :: "thresholds option"
  arg_confirm :: "(preflight_stats \<Rightarrow> thresholds \<Rightarrow> bool) option"
  arg_skip_hidden :: bool

text \<open>The local variables of \<open>bulk_convert\<close> that the loop updates, with the filesystem and the log.\<close>

record loop_state =
  ls_fs :: filesystem
  ls_log :: "event list"
  ls_results :: "bulk_file_result list"
  ls_converted :: nat
  ls_skipped :: nat
  ls_failed :: nat
  ls_total_words :: nat
  ls_total_headings :: nat

text \<open>\<open>{e.lower().lstrip('.') for e in exts}\<close>, applied when the set is given and not empty.\<close>

definition normalize_exts :: "string set option \<Rightarrow> string set option" where
  "normalize_exts exts = map_option (\<lambda>S. (\<lambda>e. lstrip_dots (lower e)) ` S) exts"

text \<open>\<open>include_ext and _ext_of(file_path) not in include_ext\<close>.\<close>

definition not_included :: "string set option \<Rightarrow> path \<Rightarrow> bool" where
  "not_included include_ext file_path =
     (case include_ext of Some S \<Rightarrow> S \<noteq> {} \<and> ext_of file_path \<notin> S | None \<Rightarrow> False)"

text \<open>\<open>exclude_ext and _ext_of(file_path) in exclude_ext\<close>.\<close>

definition excluded :: "string set option \<Rightarrow> path \<Rightarrow> bool" where
  "excluded exclude_ext file_path =
     (case exclude_ext of Some S \<Rightarrow> S \<noteq> {} \<and> ext_of file_path \<in> S | None \<Rightarrow> False)"

definition record_skipped :: "path \<Rightarrow> string \<Rightarrow> loop_state \<Rightarrow> loop_state" where
  "record_skipped file_path why s =
     s\<lparr>ls_results := ls_results s @ [skipped_result file_path why],
       ls_skipped := ls_skipped s + 1\<rparr>"

text \<open>The end of the \<open>try\<close> block: the atomic write, and the converted outcome when it returns.\<close>

definition write_output :: "path \<Rightarrow> path \<Rightarrow> string \<Rightarrow> nat \<Rightarrow> nat \<Rightarrow> loop_state
                             \<Rightarrow> loop_state \<times> py_exception option" where
  "write_output file_path final_out md_text words headings s =
     (case write_atomic (ls_fs s) final_out md_text of
        (fs', Some e) \<Rightarrow> (s\<lparr>ls_fs := fs'\<rparr>, Some e)
      | (fs', None) \<Rightarrow>
          (s\<lparr>ls_fs := fs',
             ls_results := ls_results s @ [converted_result file_path final_out words headings],
             ls_converted := ls_converted s + 1,
             ls_total_words := ls_total_words s + words,
             ls_total_headings := ls_total_headings s + headings\<rparr>, None))"

text \<open>
  The \<open>try\<close> block for one file: the converter is called, the text is counted, the
  conflict policy is applied and the output is written. The result is the state and the
  exception that left the block, if one did.
\<close>

definition try_convert :: "converter \<Rightarrow> conflict_policy \<Rightarrow> path \<Rightarrow> path \<Rightarrow> loop_state
                             \<Rightarrow> loop_state \<times> py_exception option" where
  "try_convert conv on_conflict file_path out_path s =
     (let s1 = s\<lparr>ls_log := ls_log s @ [ConvertCalled file_path]\<rparr> in
      case conv file_path of
        Inl e \<Rightarrow> (s1, Some e)
      | Inr md_text \<Rightarrow>
          (case count_words_and_headings md_text of
             (words, headings) \<Rightarrow>
               (case on_conflict of
                  Rename \<Rightarrow>
                    write_output file_path (unique_path (ls_fs s1) out_path) md_text words headings s1
                | Skip \<Rightarrow>
                    if path_exists (ls_fs s1) out_path
                    then (record_skipped file_path ''exists'' s1, None)
                    else write_output file_path out_path md_text words headings s1)))"

text \<open>
  One turn of the \<open>for\<close> loop. The second component tells whether the loop goes on to
  the next file (\<open>False\<close> is the \<open>break\<close>).
\<close>

definition process_file :: "converter \<Rightarrow> bulk_args \<Rightarrow> path \<Rightarrow> path
                              \<Rightarrow> string set option \<Rightarrow> string set option
                              \<Rightarrow> path \<Rightarrow> loop_state \<Rightarrow> loop_state \<times> bool" where
  "process_file conv args src_root dest_root include_ext exclude_ext file_path s =
     (if not_included include_ext file_path then (record_skipped file_path ''filtered'' s, True)
      else if excluded exclude_ext file_path then (record_skipped file_path ''filtered'' s, True)
      else
        (let out_path = derive_output_path file_path src_root dest_root in
         case try_convert conv (arg_on_conflict args) file_path out_path s of
           (s', None) \<Rightarrow> (s', True)
         | (s', Some e) \<Rightarrow>
             (s'\<lparr>ls_failed := ls_failed s' + 1,
                 ls_results := ls_results s' @ [failed_result file_path (exception_str e)]\<rparr>,
              arg_continue_on_error args)))"

fun convert_loop :: "converter \<Rightarrow> bulk_args \<Rightarrow> path \<Rightarrow> path
                       \<Rightarrow> string set option \<Rightarrow> string set option
                       \<Rightarrow> path list \<Rightarrow> loop_state \<Rightarrow> loop_state" where
  "convert_loop conv args src_root dest_root include_ext exclude_ext [] s = s"
| "convert_loop conv args src_root dest_root include_ext exclude_ext (file_path # rest) s =
     (case process_file conv args src_root dest_root include_ext exclude_ext file_path s of
        (s', go_on) \<Rightarrow>
          if go_on then convert_loop conv args src_root dest_root include_ext exclude_ext rest s'
          else s')"

section \<open>The orchestrator\<close>

definition exceeded :: "preflight_stats \<Rightarrow> thresholds \<Rightarrow> bool" where
  "exceeded stats th =
     (int (ps_dirs stats) > max_dirs th \<or> int (ps_files stats) > max_files th
      \<or> int (ps_bytes stats) > max_bytes th)"

text \<open>The threshold gate: the calls of the callback it made, and the exception it raised, if any.\<close>

definition preflight_gate :: "preflight_stats \<Rightarrow> thresholds
                                \<Rightarrow> (preflight_stats \<Rightarrow> thresholds \<Rightarrow> bool) option
                                \<Rightarrow> event list \<times> py_exception option" where
  "preflight_gate stats th confirm =
     (if exceeded stats th then
        (case confirm of
           Some ask \<Rightarrow>
             ([ConfirmCalled stats th],
              if \<not> ask stats th then Some (PreflightExceeded stats th) else None)
         | None \<Rightarrow> ([], Some (PreflightExceeded stats th)))
      else ([], None))"

definition initial_state :: "filesystem \<Rightarrow> event list \<Rightarrow> loop_state" where
  "initial_state fs log =
     \<lparr>ls_fs = fs, ls_log = log, ls_results = [], ls_converted = 0, ls_skipped = 0,
      ls_failed = 0, ls_total_words = 0, ls_total_headings = 0\<rparr>"

definition result_of :: "path \<Rightarrow> path \<Rightarrow> loop_state \<Rightarrow> bulk_result" where
  "result_of src_root dest_root s =
     \<lparr>br_root = src_root, br_dest = dest_root, br_files = ls_results s,
      br_converted = ls_converted s, br_skipped = ls_skipped s, br_failed = ls_failed s,
      br_total_words = ls_total_words s, br_total_headings = ls_total_headings s\<rparr>"

definition dest_root_of :: "bulk_args \<Rightarrow> path" where
  "dest_root_of args =
     (case arg_dest args of Some d \<Rightarrow> d | None \<Rightarrow> md_sibling_dest (arg_root args))"

definition thresholds_of :: "bulk_args \<Rightarrow> thresholds" where
  "thresholds_of args = (case arg_thresholds args of Some th \<Rightarrow> th | None \<Rightarrow> default_thresholds)"

text \<open>
  \<open>bulk_convert\<close>. The source root is given resolved, with the snapshot of its tree
  (\<open>None\<close> when the root does not exist or is not a directory); \<open>fs\<close> is the filesystem
  outside it. The result is the filesystem and the log the call leaves, and the
  \<open>BulkResult\<close> it returns or the exception it raises.
\<close>

definition bulk_convert :: "converter \<Rightarrow> entry list option \<Rightarrow> filesystem \<Rightarrow> bulk_args
                              \<Rightarrow> (filesystem \<times> event list) \<times> (py_exception + bulk_result)" where
  "bulk_convert conv root_tree fs args =
     (let src_root = arg_root args in
      case root_tree of
        None \<Rightarrow> ((fs, []), Inl (RootNotADirectory src_root))
      | Some entries \<Rightarrow>
          (let dest_root = dest_root_of args in
           case mkdir_parents fs dest_root of
             Inl e \<Rightarrow> ((fs, []), Inl e)
           | Inr fs1 \<Rightarrow>
               (let th = thresholds_of args;
                    stats = preflight src_root entries (arg_skip_hidden args)
                in case preflight_gate stats th (arg_confirm args) of
                     (log, Some e) \<Rightarrow> ((fs1, log), Inl e)
                   | (log, None) \<Rightarrow>
                       (let include_ext = normalize_exts (arg_include_ext args);
                            exclude_ext = normalize_exts (arg_exclude_ext args);
                            s = convert_loop conv args src_root dest_root include_ext exclude_ext
                                  (iter_files src_root entries (arg_skip_hidden args))
                                  (initial_state fs1 log);
                            bulk = result_of src_root dest_root s;
                            report_text = make_report bulk
                        in case write_atomic (ls_fs s) (dest_root @ [''process_report.md'']) report_text of
                             (fs', Some e) \<Rightarrow> ((fs', ls_log s), Inl e)
                           | (fs', None) \<Rightarrow> ((fs', ls_log s), Inr bulk)))))"

section \<open>Example inputs\<close>

definition example_tree :: "entry list" where
  "example_tree =
     [Dir ''a'' [File ''f1.txt'' (Some 5), File ''f2.pdf'' (Some 4), File ''.x'' (Some 9)],
      Dir ''.hidden'' [File ''x.txt'' (Some 6)],
      File ''top.md'' None,
      Dir ''b'' [File ''g.docx'' (Some 4), Dir ''.git'' [File ''c'' (Some 1)]]]"

definition example_dest :: filesystem where
  "example_dest =
     fmupd [''out'', ''file (1).md''] (FileNode ''second'')
       (fmupd [''out'', ''file.md''] (FileNode ''first'') (fmupd [''out''] DirNode fmempty))"

definition example_conv :: converter where
  "example_conv p =
     (if path_name p = ''f2.pdf'' then Inl (ConverterError ''unsupported format'')
      else Inr (''# '' @ path_name p @ newline @ newline @ ''Converted from '' @ path_str p))"

definition example_args :: bulk_args where
  "example_args =
     \<lparr>arg_root = [''src''], arg_dest = Some [''out''], arg_include_ext = None,
      arg_exclude_ext = None, arg_on_conflict = Rename, arg_continue_on_error = True,
      arg_thresholds = None, arg_confirm = None, arg_skip_hidden = True\<rparr>"


definition example_skip_args :: bulk_args where
  "example_skip_args = example_args\<lparr>arg_on_conflict := Skip\<rparr>"

definition example_three :: "entry list" where
  "example_three = [File ''f0.txt'' (Some 1), File ''f1.txt'' (Some 1), File ''f2.txt'' (Some 1)]"

definition example_gate_args :: bulk_args where
  "example_gate_args =
     example_args\<lparr>arg_thresholds := Some \<lparr>max_dirs = 1, max_files = 2, max_bytes = 10\<rparr>\<rparr>"



section \<open>Word and heading counts\<close>

fun token_start_count :: "bool \<Rightarrow> string \<Rightarrow> nat" where
  "token_start_count b [] = 0"
| "token_start_count b (c # cs) =
     (if b \<and> \<not> isspace c then 1 else 0) + token_start_count (isspace c) cs"

lemma token_starts_count_gen:
  "length (filter (\<lambda>i. \<not> isspace (s ! i) \<and> (if i = 0 then b else isspace (s ! (i - 1))))
             [0..<length s]) = token_start_count b s"
proof (induction s arbitrary: b)
  case Nil
  then show ?case by simp
next
  case (Cons c cs)
  have up: "[0..<length (c # cs)] = 0 # map Suc [0..<length cs]"
    by (simp add: upt_conv_Cons map_Suc_upt del: upt_Suc)
  have shift: "filter (\<lambda>i. \<not> isspace ((c # cs) ! i) \<and> (if i = 0 then b else isspace ((c # cs) ! (i - 1))))
                 (map Suc [0..<length cs])
             = map Suc (filter (\<lambda>i. \<not> isspace (cs ! i) \<and> (if i = 0 then isspace c else isspace (cs ! (i - 1))))
                 [0..<length cs])"
    unfolding filter_map by (rule arg_cong[where f="map Suc"], rule filter_cong) (auto simp: nth_Cons')
  show ?case
    unfolding up using Cons.IH[of "isspace c"] by (simp add: shift del: upt_Suc)
qed

lemma token_starts_count: "length (token_starts s) = token_start_count True s"
proof -
  have "token_starts s
      = filter (\<lambda>i. \<not> isspace (s ! i) \<and> (if i = 0 then True else isspace (s ! (i - 1)))) [0..<length s]"
    unfolding token_starts_def by (rule filter_cong) auto
  then show ?thesis by (simp only: token_starts_count_gen)
qed

lemma token_start_count_skip_space:
  "token_start_count True (dropWhile isspace s) = token_start_count True s"
  by (induction s) auto

lemma token_start_count_skip_word:
  "token_start_count True (dropWhile (\<lambda>x. \<not> isspace x) s) = token_start_count False s"
  by (induction s) auto


lemma str_split_Nil: "dropWhile isspace s = [] \<Longrightarrow> str_split s = []"
  by (subst str_split.simps) (simp only: list.case)

lemma str_split_Cons:
  "dropWhile isspace s = c # cs \<Longrightarrow>
   str_split s = (c # takeWhile (\<lambda>x. \<not> isspace x) cs) # str_split (dropWhile (\<lambda>x. \<not> isspace x) cs)"
  by (subst str_split.simps) (simp only: list.case)

lemma str_split_count: "length (str_split s) = token_start_count True s"
proof (induction s rule: str_split.induct)
  case (1 s)
  show ?case
  proof (cases "dropWhile isspace s")
    case Nil
    have "token_start_count True s = token_start_count True (dropWhile isspace s)"
      by (simp only: token_start_count_skip_space)
    then have "token_start_count True s = 0"
      by (simp only: Nil token_start_count.simps)
    then show ?thesis by (simp only: str_split_Nil[OF Nil] list.size)
  next
    case (Cons c cs)
    then have c: "\<not> isspace c"
      by (metis hd_dropWhile list.sel(1) list.distinct(1))
    have "token_start_count True s = token_start_count True (dropWhile isspace s)"
      by (simp only: token_start_count_skip_space)
    also have "\<dots> = Suc (token_start_count False cs)" using c by (simp add: Cons)
    also have "\<dots> = Suc (length (str_split (dropWhile (\<lambda>x. \<not> isspace x) cs)))"
      using "1.IH"[OF Cons] by (simp add: token_start_count_skip_word)
    finally show ?thesis by (simp add: str_split_Cons[OF Cons])
  qed
qed

lemma hash_not_space: "\<not> isspace CHR ''#''"
  by (simp add: isspace_def)

lemma first_nonspace_is_hash_Cons:
  "first_nonspace_is_hash (c # cs) = (c = CHR ''#'' \<or> (isspace c \<and> first_nonspace_is_hash cs))"
proof
  assume "first_nonspace_is_hash (c # cs)"
  then obtain i where i: "i < Suc (length cs)" "(c # cs) ! i = CHR ''#''"
      "\<forall>j<i. isspace ((c # cs) ! j)"
    by (auto simp: first_nonspace_is_hash_def)
  show "c = CHR ''#'' \<or> (isspace c \<and> first_nonspace_is_hash cs)"
  proof (cases i)
    case 0
    then show ?thesis using i by simp
  next
    case (Suc k)
    then have "isspace c" using i(3) by auto
    moreover have "k < length cs" "cs ! k = CHR ''#''" using i Suc by auto
    moreover have "\<forall>j<k. isspace (cs ! j)"
    proof (intro allI impI)
      fix j assume "j < k"
      then have "Suc j < i" using Suc by simp
      then have "isspace ((c # cs) ! Suc j)" using i(3) by blast
      then show "isspace (cs ! j)" by simp
    qed
    ultimately have "isspace c \<and> first_nonspace_is_hash cs"
      by (auto simp: first_nonspace_is_hash_def)
    then show ?thesis ..
  qed
next
  assume "c = CHR ''#'' \<or> (isspace c \<and> first_nonspace_is_hash cs)"
  then show "first_nonspace_is_hash (c # cs)"
  proof
    assume "c = CHR ''#''"
    then have "(c # cs) ! 0 = CHR ''#'' \<and> (\<forall>j\<in>{0..<0}. isspace ((c # cs) ! j))" by simp
    then show ?thesis unfolding first_nonspace_is_hash_def
      by (intro bexI[where x=0]) auto
  next
    assume a: "isspace c \<and> first_nonspace_is_hash cs"
    then obtain k where k: "k < length cs" "cs ! k = CHR ''#''" "\<forall>j<k. isspace (cs ! j)"
      by (auto simp: first_nonspace_is_hash_def)
    have "\<forall>j\<in>{0..<Suc k}. isspace ((c # cs) ! j)"
      using a k(3) by (auto simp: nth_Cons')
    then show ?thesis unfolding first_nonspace_is_hash_def
      using k by (intro bexI[where x="Suc k"]) auto
  qed
qed

lemma heading_line_iff: "startswith (lstrip line) ''#'' = first_nonspace_is_hash line"
proof (induction line)
  case Nil
  then show ?case by (simp add: startswith_def lstrip_def first_nonspace_is_hash_def)
next
  case (Cons c cs)
  show ?case
  proof (cases "isspace c")
    case True
    then have "c \<noteq> CHR ''#''" using hash_not_space by auto
    then show ?thesis using Cons True
      by (simp add: lstrip_def first_nonspace_is_hash_Cons)
  next
    case False
    then show ?thesis
      by (simp add: lstrip_def startswith_def first_nonspace_is_hash_Cons)
  qed
qed

text \<open>
  \<open>_count_words_and_headings\<close> in the words of the specification: the tokens of
  \<open>str.split()\<close> are counted by their first characters, and \<open>lstrip().startswith("#")\<close>
  tests the first non-whitespace character of a line.
\<close>

lemma count_words_and_headings_tokens:
  "count_words_and_headings markdown =
     (length (token_starts markdown), length (filter first_nonspace_is_hash (splitlines markdown)))"
  by (simp add: count_words_and_headings_def str_split_count token_starts_count heading_line_iff)

section \<open>Directory creation\<close>

lemma is_dir_not_nearest_file: "is_dir fs q \<Longrightarrow> \<not> nearest_is_file fs q"
  by (subst nearest_is_file.simps) (auto simp: is_dir_def)

lemma exists_not_nearest_file:
  "path_exists fs q \<Longrightarrow> \<not> nearest_is_file fs q \<Longrightarrow> is_dir fs q"
  by (subst (asm) nearest_is_file.simps)
     (auto simp: is_dir_def path_exists_def split: option.splits node.splits if_splits)

lemma os_mkdir_Inr:
  "os_mkdir fs p = Inr fs' \<Longrightarrow> fs' = fmupd p DirNode fs \<and> \<not> path_exists fs p"
  by (auto simp: os_mkdir_def split: if_splits)

lemma parent_shorter: "p \<noteq> [] \<Longrightarrow> length (parent p) < length p"
  by (simp add: parent_def)

lemma parent_fixed: "parent p = p \<longleftrightarrow> p = []"
  by (cases p rule: rev_cases) (auto simp: parent_def)

lemma mkdir_parents_cases:
  assumes "mkdir_parents fs p = Inr fs'"
  obtains (made) "os_mkdir fs p = Inr fs'"
    | (rec) e fs1 where "os_mkdir fs p = Inl e" "is_file_not_found e" "parent p \<noteq> p"
        "mkdir_parents fs (parent p) = Inr fs1" "os_mkdir fs1 p = Inr fs'"
    | (rec_there) e e2 where "os_mkdir fs p = Inl e" "is_file_not_found e" "parent p \<noteq> p"
        "mkdir_parents fs (parent p) = Inr fs'" "os_mkdir fs' p = Inl e2" "is_dir fs' p"
    | (there) e where "os_mkdir fs p = Inl e" "\<not> is_file_not_found e" "is_dir fs p" "fs' = fs"
  using assms
  by (subst (asm) mkdir_parents.simps)
     (auto split: sum.splits if_splits)

lemma mkdir_parents_frame:
  "mkdir_parents fs d = Inr fs' \<Longrightarrow> length d < length q \<Longrightarrow> fmlookup fs' q = fmlookup fs q"
proof (induction fs d arbitrary: fs' rule: mkdir_parents.induct)
  case (1 fs p)
  have lp: "length (parent p) < length q" using "1.prems"(2) by (simp add: parent_def)
  have pq: "p \<noteq> q" using "1.prems"(2) by auto
  from "1.prems"(1) show ?case
  proof (cases rule: mkdir_parents_cases)
    case made
    then show ?thesis using pq by (auto dest!: os_mkdir_Inr)
  next
    case (rec e fs1)
    have "fmlookup fs1 q = fmlookup fs q"
      using "1.IH"[OF rec(1) rec(2) rec(3) rec(4) lp] .
    then show ?thesis using rec(5) pq by (auto dest!: os_mkdir_Inr)
  next
    case (rec_there e e2)
    show ?thesis using "1.IH"[OF rec_there(1) rec_there(2) rec_there(3) rec_there(4) lp] .
  next
    case (there e)
    then show ?thesis by simp
  qed
qed

lemma mkdir_parents_is_dir:
  assumes "mkdir_parents fs d = Inr fs'"
  shows "is_dir fs' d"
  using assms
proof (cases rule: mkdir_parents_cases)
  case made
  then show ?thesis by (auto dest!: os_mkdir_Inr simp: is_dir_def)
next
  case (rec e fs1)
  then show ?thesis by (auto dest!: os_mkdir_Inr simp: is_dir_def)
next
  case (rec_there e e2)
  then show ?thesis by simp
next
  case (there e)
  then show ?thesis by simp
qed

text \<open>Directory creation only adds directories, at paths where nothing was.\<close>

lemma mkdir_parents_lookup:
  "mkdir_parents fs d = Inr fs' \<Longrightarrow>
   fmlookup fs' q = fmlookup fs q \<or> (fmlookup fs q = None \<and> fmlookup fs' q = Some DirNode)"
proof (induction fs d arbitrary: fs' rule: mkdir_parents.induct)
  case (1 fs p)
  from "1.prems"(1) show ?case
  proof (cases rule: mkdir_parents_cases)
    case made
    then show ?thesis by (auto dest!: os_mkdir_Inr simp: path_exists_def split: if_splits)
  next
    case (rec e fs1)
    have "fmlookup fs1 q = fmlookup fs q \<or> (fmlookup fs q = None \<and> fmlookup fs1 q = Some DirNode)"
      using "1.IH"[OF rec(1) rec(2) rec(3) rec(4)] .
    then show ?thesis using rec(5) by (auto dest!: os_mkdir_Inr simp: path_exists_def split: if_splits)
  next
    case (rec_there e e2)
    show ?thesis using "1.IH"[OF rec_there(1) rec_there(2) rec_there(3) rec_there(4)] .
  next
    case (there e)
    then show ?thesis by simp
  qed
qed

text \<open>When the parent has been made, \<open>os.mkdir\<close> of the path itself cannot fail.\<close>

lemma os_mkdir_after_parent:
  assumes "os_mkdir fs p = Inl e" "is_file_not_found e" "parent p \<noteq> p"
    and "mkdir_parents fs (parent p) = Inr fs1"
  shows "\<exists>fs2. os_mkdir fs1 p = Inr fs2"
proof -
  have ne: "p \<noteq> []" using assms(3) by (simp add: parent_fixed)
  have "\<not> path_exists fs p"
    using assms(1,2) by (auto simp: os_mkdir_def split: if_splits)
  then have "fmlookup fs p = None" by (simp add: path_exists_def)
  then have "fmlookup fs1 p = None"
    using mkdir_parents_frame[OF assms(4) parent_shorter[OF ne]] by simp
  then have "\<not> path_exists fs1 p" using ne by (simp add: path_exists_def)
  moreover have "is_dir fs1 (parent p)" using mkdir_parents_is_dir[OF assms(4)] .
  moreover from this have "path_exists fs1 (parent p)" by (auto simp: is_dir_def path_exists_def)
  ultimately show ?thesis by (simp add: os_mkdir_def is_dir_not_nearest_file)
qed

lemma mkdir_parents_states_fail:
  "mkdir_parents fs d = Inl e \<Longrightarrow> mkdir_parents_states fs d = []"
proof (induction fs d arbitrary: e rule: mkdir_parents.induct)
  case (1 fs p)
  show ?case
  proof (cases "os_mkdir fs p")
    case (Inr fs')
    then show ?thesis using "1.prems" by (subst (asm) mkdir_parents.simps) simp
  next
    case (Inl e0)
    show ?thesis
    proof (cases "is_file_not_found e0 \<and> parent p \<noteq> p")
      case False
      then show ?thesis using Inl by (subst mkdir_parents_states.simps) auto
    next
      case True
      show ?thesis
      proof (cases "mkdir_parents fs (parent p)")
        case (Inl e1)
        have "mkdir_parents_states fs (parent p) = []"
          using "1.IH"[OF \<open>os_mkdir fs p = Inl e0\<close> _ _ Inl] True by simp
        then show ?thesis
          using \<open>os_mkdir fs p = Inl e0\<close> True Inl by (subst mkdir_parents_states.simps) simp
      next
        case (Inr fs1)
        from os_mkdir_after_parent[OF \<open>os_mkdir fs p = Inl e0\<close> _ _ Inr] True
        obtain fs2 where "os_mkdir fs1 p = Inr fs2" by blast
        then have "mkdir_parents fs p = Inr fs2"
          using \<open>os_mkdir fs p = Inl e0\<close> True Inr by (subst mkdir_parents.simps) simp
        then show ?thesis using "1.prems" by simp
      qed
    qed
  qed
qed

lemma mkdir_parents_states_last:
  "mkdir_parents fs d = Inr fs' \<Longrightarrow> last (fs # mkdir_parents_states fs d) = fs'"
proof (induction fs d arbitrary: fs' rule: mkdir_parents.induct)
  case (1 fs p)
  from "1.prems"(1) show ?case
  proof (cases rule: mkdir_parents_cases)
    case made
    then show ?thesis by (subst mkdir_parents_states.simps) simp
  next
    case (rec e fs1)
    then show ?thesis by (subst mkdir_parents_states.simps) simp
  next
    case (rec_there e e2)
    have "last (fs # mkdir_parents_states fs (parent p)) = fs'"
      using "1.IH"[OF rec_there(1) rec_there(2) rec_there(3) rec_there(4)] .
    then show ?thesis using rec_there by (subst mkdir_parents_states.simps) simp
  next
    case (there e)
    then show ?thesis by (subst mkdir_parents_states.simps) simp
  qed
qed

lemma mkdir_parents_states_frame:
  "s \<in> set (mkdir_parents_states fs d) \<Longrightarrow> length d < length q \<Longrightarrow> fmlookup s q = fmlookup fs q"
proof (induction fs d arbitrary: s rule: mkdir_parents_states.induct)
  case (1 fs p)
  have lp: "length (parent p) < length q" using "1.prems"(2) by (simp add: parent_def)
  have pq: "p \<noteq> q" using "1.prems"(2) by auto
  show ?case
  proof (cases "os_mkdir fs p")
    case (Inr fs')
    then have "s = fs'" using "1.prems"(1) by (subst (asm) mkdir_parents_states.simps) simp
    then show ?thesis using Inr pq by (auto dest!: os_mkdir_Inr)
  next
    case (Inl e)
    show ?thesis
    proof (cases "is_file_not_found e \<and> parent p \<noteq> p")
      case False
      then show ?thesis using Inl "1.prems"(1) by (subst (asm) mkdir_parents_states.simps) auto
    next
      case True
      have mem: "s \<in> set (mkdir_parents_states fs (parent p)
            @ (case mkdir_parents fs (parent p) of
                 Inl e1 \<Rightarrow> []
               | Inr fs' \<Rightarrow> (case os_mkdir fs' p of Inr fs'' \<Rightarrow> [fs''] | Inl e2 \<Rightarrow> [])))"
        using "1.prems"(1) Inl True by (subst (asm) mkdir_parents_states.simps) simp
      then consider
          (before) "s \<in> set (mkdir_parents_states fs (parent p))"
        | (final) fs1 where "mkdir_parents fs (parent p) = Inr fs1" "os_mkdir fs1 p = Inr s"
      proof (cases "mkdir_parents fs (parent p)")
        case (Inl e1)
        then show ?thesis using mem that(1) by simp
      next
        case (Inr fs1)
        show ?thesis
        proof (cases "os_mkdir fs1 p")
          case (Inl e2)
          then show ?thesis using mem Inr that(1) by simp
        next
          case fs2: (Inr fs2)
          then show ?thesis using mem Inr that by auto
        qed
      qed
      then show ?thesis
      proof cases
        case before
        show ?thesis using "1.IH"[OF Inl True before lp] .
      next
        case final
        have "fmlookup fs1 q = fmlookup fs q" using mkdir_parents_frame[OF final(1) lp] .
        then show ?thesis using final(2) pq by (auto dest!: os_mkdir_Inr)
      qed
    qed
  qed
qed

section \<open>The temporary sibling\<close>

lemma suffix_rejoin:
  assumes "suffix p \<noteq> []"
  shows "take (length (path_name p) - length (suffix p)) (path_name p) @ suffix p = path_name p"
proof -
  from assms obtain i where i: "rfind_dot (path_name p) = Some i" "i < length (path_name p) - 1"
      "suffix p = drop i (path_name p)"
    by (auto simp: suffix_def Let_def split: option.splits if_splits)
  then have "length (path_name p) - length (suffix p) = i" by simp
  then show ?thesis using i(3) by simp
qed

lemma tmp_path_eq: "tmp_path p = parent p @ [path_name p @ ''.tmp'']"
proof (cases "suffix p = []")
  case True
  then show ?thesis by (simp add: tmp_path_def with_suffix_def)
next
  case False
  have "take (length (path_name p) - length (suffix p)) (path_name p) @ suffix p @ ''.tmp''
      = path_name p @ ''.tmp''"
    using suffix_rejoin[OF False] by (metis append.assoc)
  then show ?thesis
    using False by (simp add: tmp_path_def with_suffix_def Let_def)
qed

lemma tmp_path_neq: "tmp_path p \<noteq> p"
proof (cases p rule: rev_cases)
  case Nil
  then show ?thesis by (simp add: tmp_path_eq)
next
  case (snoc d n)
  then show ?thesis by (simp add: tmp_path_eq parent_def path_name_def)
qed

lemma tmp_path_length: "length (tmp_path p) = Suc (length (parent p))"
  by (simp add: tmp_path_eq)

lemma parent_tmp_path: "parent (tmp_path p) = parent p"
  by (simp add: tmp_path_eq parent_def)

section \<open>Opening, replacing, writing\<close>

lemma mkdir_parents_root: "mkdir_parents fs [] = Inr fs" "mkdir_parents_states fs [] = []"
  by (subst mkdir_parents.simps, simp add: os_mkdir_def path_exists_def is_dir_def)
     (subst mkdir_parents_states.simps, simp add: os_mkdir_def path_exists_def)

lemma mkdir_parent_keeps:
  assumes "mkdir_parents fs (parent p) = Inr fs1"
  shows "fmlookup fs1 p = fmlookup fs p"
proof (cases "p = []")
  case True
  then show ?thesis using assms by (simp add: parent_def mkdir_parents_root)
next
  case False
  then show ?thesis using mkdir_parents_frame[OF assms parent_shorter] by simp
qed

lemma mkdir_parent_states_keep:
  assumes "s \<in> set (mkdir_parents_states fs (parent p))"
  shows "fmlookup s p = fmlookup fs p"
proof (cases "p = []")
  case True
  then show ?thesis using assms by (simp add: parent_def mkdir_parents_root)
next
  case False
  then show ?thesis using mkdir_parents_states_frame[OF assms parent_shorter] by simp
qed

lemma open_write_Inr:
  "open_write fs p = Inr fs' \<Longrightarrow>
   fs' = fmupd p (FileNode []) fs \<and> \<not> is_dir fs p \<and> is_dir fs (parent p)"
  by (auto simp: open_write_def exists_not_nearest_file split: if_splits)

lemma os_replace_Inr:
  "os_replace fs src dst = Inr fs' \<Longrightarrow>
   \<exists>content. fmlookup fs src = Some (FileNode content) \<and> \<not> is_dir fs dst \<and>
     is_dir fs (parent dst) \<and>
     fs' = (if src = dst then fs else fmdrop src (fmupd dst (FileNode content) fs))"
  by (auto simp: os_replace_def exists_not_nearest_file
      split: option.splits node.splits if_splits)

text \<open>What a call of \<open>_write_atomic\<close> can be: the four ways through its body.\<close>

lemma write_atomic_cases:
  obtains (mkdir_failed) e where "mkdir_parents fs (parent p) = Inl e"
      "write_atomic fs p data = (fs, Some e)"
      "write_atomic_states fs p data = [fs]"
  | (open_failed) fs1 e where "mkdir_parents fs (parent p) = Inr fs1"
      "open_write fs1 (tmp_path p) = Inl e"
      "write_atomic fs p data = (fs1, Some e)"
      "write_atomic_states fs p data = fs # mkdir_parents_states fs (parent p)"
  | (replace_failed) fs1 e where "mkdir_parents fs (parent p) = Inr fs1"
      "open_write fs1 (tmp_path p) = Inr (fmupd (tmp_path p) (FileNode []) fs1)"
      "os_replace (fmupd (tmp_path p) (FileNode data) (fmupd (tmp_path p) (FileNode []) fs1))
           (tmp_path p) p = Inl e"
      "write_atomic fs p data
         = (fmupd (tmp_path p) (FileNode data) (fmupd (tmp_path p) (FileNode []) fs1), Some e)"
      "write_atomic_states fs p data
         = fs # mkdir_parents_states fs (parent p)
           @ map (\<lambda>n. fmupd (tmp_path p) (FileNode (take n data)) (fmupd (tmp_path p) (FileNode []) fs1))
                 [0..<Suc (length data)]"
  | (written) fs1 fs4 where "mkdir_parents fs (parent p) = Inr fs1"
      "open_write fs1 (tmp_path p) = Inr (fmupd (tmp_path p) (FileNode []) fs1)"
      "os_replace (fmupd (tmp_path p) (FileNode data) (fmupd (tmp_path p) (FileNode []) fs1))
           (tmp_path p) p = Inr fs4"
      "fs4 = fmdrop (tmp_path p) (fmupd p (FileNode data)
               (fmupd (tmp_path p) (FileNode data) (fmupd (tmp_path p) (FileNode []) fs1)))"
      "write_atomic fs p data = (fs4, None)"
      "write_atomic_states fs p data
         = fs # mkdir_parents_states fs (parent p)
           @ map (\<lambda>n. fmupd (tmp_path p) (FileNode (take n data)) (fmupd (tmp_path p) (FileNode []) fs1))
                 [0..<Suc (length data)]
           @ [fs4]"
proof (cases "mkdir_parents fs (parent p)")
  case (Inl e)
  then show ?thesis
    using mkdir_failed[of e] mkdir_parents_states_fail[OF Inl]
    by (simp add: write_atomic_def write_atomic_states_def)
next
  case (Inr fs1)
  show ?thesis
  proof (cases "open_write fs1 (tmp_path p)")
    case (Inl e)
    then show ?thesis
      using open_failed[of fs1 e] Inr by (simp add: write_atomic_def write_atomic_states_def)
  next
    case fs2: (Inr fs2)
    then have fs2_eq: "fs2 = fmupd (tmp_path p) (FileNode []) fs1"
      by (auto dest: open_write_Inr)
    show ?thesis
    proof (cases "os_replace (fmupd (tmp_path p) (FileNode data) fs2) (tmp_path p) p")
      case (Inl e)
      then show ?thesis
        using replace_failed[of fs1 e] Inr fs2 fs2_eq
        by (simp add: write_atomic_def write_atomic_states_def Let_def del: upt_Suc)
    next
      case fs4: (Inr fs4)
      from os_replace_Inr[OF fs4] have
        "fs4 = fmdrop (tmp_path p) (fmupd p (FileNode data) (fmupd (tmp_path p) (FileNode data) fs2))"
        using tmp_path_neq[of p] by auto
      then show ?thesis
        using written[of fs1 fs4] Inr fs2 fs2_eq fs4
        by (simp add: write_atomic_def write_atomic_states_def Let_def del: upt_Suc)
    qed
  qed
qed

section \<open>One turn of the loop\<close>

text \<open>The five ways through one turn of the loop, with the state each leaves.\<close>

lemma process_file_cases:
  fixes conv :: converter and args :: bulk_args
  defines "out \<equiv> \<lambda>f src_root dest_root. derive_output_path f src_root dest_root"
  obtains
    (filtered) "not_included inc f \<or> excluded exc f"
      "process_file conv args src_root dest_root inc exc f s = (record_skipped f ''filtered'' s, True)"
  | (conv_raised) e where "\<not> not_included inc f" "\<not> excluded exc f" "conv f = Inl e"
      "process_file conv args src_root dest_root inc exc f s
         = (s\<lparr>ls_log := ls_log s @ [ConvertCalled f],
              ls_results := ls_results s @ [failed_result f (exception_str e)],
              ls_failed := ls_failed s + 1\<rparr>, arg_continue_on_error args)"
  | (dest_exists) md_text where "\<not> not_included inc f" "\<not> excluded exc f" "conv f = Inr md_text"
      "arg_on_conflict args = Skip" "path_exists (ls_fs s) (out f src_root dest_root)"
      "process_file conv args src_root dest_root inc exc f s
         = (s\<lparr>ls_log := ls_log s @ [ConvertCalled f],
              ls_results := ls_results s @ [skipped_result f ''exists''],
              ls_skipped := ls_skipped s + 1\<rparr>, True)"
  | (write_raised) md_text final_out fs' e where
      "\<not> not_included inc f" "\<not> excluded exc f" "conv f = Inr md_text"
      "final_out = (case arg_on_conflict args of
                      Rename \<Rightarrow> unique_path (ls_fs s) (out f src_root dest_root)
                    | Skip \<Rightarrow> out f src_root dest_root)"
      "arg_on_conflict args = Skip \<longrightarrow> \<not> path_exists (ls_fs s) (out f src_root dest_root)"
      "write_atomic (ls_fs s) final_out md_text = (fs', Some e)"
      "process_file conv args src_root dest_root inc exc f s
         = (s\<lparr>ls_fs := fs', ls_log := ls_log s @ [ConvertCalled f],
              ls_results := ls_results s @ [failed_result f (exception_str e)],
              ls_failed := ls_failed s + 1\<rparr>, arg_continue_on_error args)"
  | (written) md_text final_out fs' where
      "\<not> not_included inc f" "\<not> excluded exc f" "conv f = Inr md_text"
      "final_out = (case arg_on_conflict args of
                      Rename \<Rightarrow> unique_path (ls_fs s) (out f src_root dest_root)
                    | Skip \<Rightarrow> out f src_root dest_root)"
      "arg_on_conflict args = Skip \<longrightarrow> \<not> path_exists (ls_fs s) (out f src_root dest_root)"
      "write_atomic (ls_fs s) final_out md_text = (fs', None)"
      "process_file conv args src_root dest_root inc exc f s
         = (s\<lparr>ls_fs := fs', ls_log := ls_log s @ [ConvertCalled f],
              ls_results := ls_results s
                 @ [converted_result f final_out (fst (count_words_and_headings md_text))
                      (snd (count_words_and_headings md_text))],
              ls_converted := ls_converted s + 1,
              ls_total_words := ls_total_words s + fst (count_words_and_headings md_text),
              ls_total_headings := ls_total_headings s + snd (count_words_and_headings md_text)\<rparr>,
            True)"
proof (cases "not_included inc f \<or> excluded exc f")
  case True
  then show ?thesis using filtered by (auto simp: process_file_def)
next
  case nf: False
  show ?thesis
  proof (cases "conv f")
    case (Inl e)
    then show ?thesis using nf conv_raised[of e]
      by (simp add: process_file_def try_convert_def Let_def)
  next
    case (Inr md_text)
    show ?thesis
    proof (cases "arg_on_conflict args = Skip \<and> path_exists (ls_fs s) (out f src_root dest_root)")
      case True
      then show ?thesis using nf Inr dest_exists[of md_text]
        by (simp add: process_file_def try_convert_def Let_def record_skipped_def out_def
            split: prod.splits)
    next
      case ne: False
      define final_out where "final_out = (case arg_on_conflict args of
                      Rename \<Rightarrow> unique_path (ls_fs s) (out f src_root dest_root)
                    | Skip \<Rightarrow> out f src_root dest_root)"
      obtain fs' r where w: "write_atomic (ls_fs s) final_out md_text = (fs', r)"
        by (cases "write_atomic (ls_fs s) final_out md_text") auto
      show ?thesis
      proof (cases r)
        case None
        then show ?thesis using nf Inr ne w written[of md_text final_out fs']
          by (cases "arg_on_conflict args")
             (simp_all add: process_file_def try_convert_def Let_def write_output_def out_def
                final_out_def split: prod.splits)
      next
        case (Some e)
        then show ?thesis using nf Inr ne w write_raised[of md_text final_out fs' e]
          by (cases "arg_on_conflict args")
             (simp_all add: process_file_def try_convert_def Let_def write_output_def out_def
                final_out_def split: prod.splits)
      qed
    qed
  qed
qed

section \<open>The ways through the orchestrator\<close>

text \<open>The loop of a run, from the state the gate leaves, and the path of the report.\<close>

definition run_loop :: "converter \<Rightarrow> entry list \<Rightarrow> filesystem \<Rightarrow> event list \<Rightarrow> bulk_args \<Rightarrow> loop_state" where
  "run_loop conv entries fs1 log args =
     convert_loop conv args (arg_root args) (dest_root_of args)
       (normalize_exts (arg_include_ext args)) (normalize_exts (arg_exclude_ext args))
       (iter_files (arg_root args) entries (arg_skip_hidden args))
       (initial_state fs1 log)"

definition report_path :: "bulk_args \<Rightarrow> path" where
  "report_path args = dest_root_of args @ [''process_report.md'']"

definition run_result :: "converter \<Rightarrow> entry list \<Rightarrow> filesystem \<Rightarrow> event list \<Rightarrow> bulk_args \<Rightarrow> bulk_result" where
  "run_result conv entries fs1 log args =
     result_of (arg_root args) (dest_root_of args) (run_loop conv entries fs1 log args)"

lemma bulk_convert_cases:
  obtains
    (bad_root) "root_tree = None"
      "bulk_convert conv root_tree fs args = ((fs, []), Inl (RootNotADirectory (arg_root args)))"
  | (mkdir_raised) entries e where "root_tree = Some entries"
      "mkdir_parents fs (dest_root_of args) = Inl e"
      "bulk_convert conv root_tree fs args = ((fs, []), Inl e)"
  | (gate_raised) entries fs1 log e where "root_tree = Some entries"
      "mkdir_parents fs (dest_root_of args) = Inr fs1"
      "preflight_gate (preflight (arg_root args) entries (arg_skip_hidden args))
          (thresholds_of args) (arg_confirm args) = (log, Some e)"
      "bulk_convert conv root_tree fs args = ((fs1, log), Inl e)"
  | (report_raised) entries fs1 log fs' e where "root_tree = Some entries"
      "mkdir_parents fs (dest_root_of args) = Inr fs1"
      "preflight_gate (preflight (arg_root args) entries (arg_skip_hidden args))
          (thresholds_of args) (arg_confirm args) = (log, None)"
      "write_atomic (ls_fs (run_loop conv entries fs1 log args)) (report_path args)
          (make_report (run_result conv entries fs1 log args)) = (fs', Some e)"
      "bulk_convert conv root_tree fs args
         = ((fs', ls_log (run_loop conv entries fs1 log args)), Inl e)"
  | (returned) entries fs1 log fs' where "root_tree = Some entries"
      "mkdir_parents fs (dest_root_of args) = Inr fs1"
      "preflight_gate (preflight (arg_root args) entries (arg_skip_hidden args))
          (thresholds_of args) (arg_confirm args) = (log, None)"
      "write_atomic (ls_fs (run_loop conv entries fs1 log args)) (report_path args)
          (make_report (run_result conv entries fs1 log args)) = (fs', None)"
      "bulk_convert conv root_tree fs args
         = ((fs', ls_log (run_loop conv entries fs1 log args)),
            Inr (run_result conv entries fs1 log args))"
proof (cases root_tree)
  case None
  then show ?thesis using bad_root by (simp add: bulk_convert_def)
next
  case (Some entries)
  show ?thesis
  proof (cases "mkdir_parents fs (dest_root_of args)")
    case (Inl e)
    then show ?thesis using Some mkdir_raised[of entries e] by (simp add: bulk_convert_def)
  next
    case (Inr fs1)
    obtain log g where g: "preflight_gate (preflight (arg_root args) entries (arg_skip_hidden args))
          (thresholds_of args) (arg_confirm args) = (log, g)"
      by (cases "preflight_gate (preflight (arg_root args) entries (arg_skip_hidden args))
          (thresholds_of args) (arg_confirm args)") auto
    show ?thesis
    proof (cases g)
      case (Some e)
      then show ?thesis using \<open>root_tree = Some entries\<close> Inr g gate_raised[of entries fs1 log e]
        by (simp add: bulk_convert_def Let_def)
    next
      case None
      obtain fs' w where w: "write_atomic (ls_fs (run_loop conv entries fs1 log args)) (report_path args)
          (make_report (run_result conv entries fs1 log args)) = (fs', w)"
        by (cases "write_atomic (ls_fs (run_loop conv entries fs1 log args)) (report_path args)
          (make_report (run_result conv entries fs1 log args))") auto
      show ?thesis
      proof (cases w)
        case None
        then show ?thesis
          using \<open>root_tree = Some entries\<close> Inr g \<open>g = None\<close> w returned[of entries fs1 log fs']
          by (simp add: bulk_convert_def Let_def run_loop_def run_result_def report_path_def)
      next
        case (Some e)
        then show ?thesis
          using \<open>root_tree = Some entries\<close> Inr g \<open>g = None\<close> w report_raised[of entries fs1 log fs' e]
          by (simp add: bulk_convert_def Let_def run_loop_def run_result_def report_path_def)
      qed
    qed
  qed
qed

section \<open>Counters and outcomes\<close>

definition counts_agree :: "loop_state \<Rightarrow> bool" where
  "counts_agree s =
     (ls_converted s = length (filter (\<lambda>fr. fr_status fr = Converted) (ls_results s)) \<and>
      ls_skipped s = length (filter (\<lambda>fr. fr_status fr = Skipped) (ls_results s)) \<and>
      ls_failed s = length (filter (\<lambda>fr. fr_status fr = Failed) (ls_results s)) \<and>
      ls_total_words s
        = sum_list (map (\<lambda>fr. count_or_zero (fr_words fr))
                        (filter (\<lambda>fr. fr_status fr = Converted) (ls_results s))) \<and>
      ls_total_headings s
        = sum_list (map (\<lambda>fr. count_or_zero (fr_headings fr))
                        (filter (\<lambda>fr. fr_status fr = Converted) (ls_results s))))"

lemma counts_agree_process_file:
  assumes "counts_agree s" and "process_file conv args src_root dest_root inc exc f s = (s', go_on)"
  shows "counts_agree s'"
  using assms(2)
proof (cases rule: process_file_cases[of inc f exc conv args src_root dest_root s])
  case filtered
  then show ?thesis using assms
    by (auto simp: counts_agree_def record_skipped_def skipped_result_def)
next
  case (conv_raised e)
  then show ?thesis using assms by (auto simp: counts_agree_def failed_result_def)
next
  case (dest_exists md_text)
  then show ?thesis using assms by (auto simp: counts_agree_def skipped_result_def)
next
  case (write_raised md_text final_out fs' e)
  then show ?thesis using assms by (auto simp: counts_agree_def failed_result_def)
next
  case (written md_text final_out fs')
  then show ?thesis using assms
    by (auto simp: counts_agree_def converted_result_def count_or_zero_def)
qed

lemma counts_agree_convert_loop:
  "counts_agree s \<Longrightarrow> counts_agree (convert_loop conv args src_root dest_root inc exc fs s)"
proof (induction fs arbitrary: s)
  case Nil
  then show ?case by simp
next
  case (Cons f fs)
  obtain s' go_on where p: "process_file conv args src_root dest_root inc exc f s = (s', go_on)"
    by (cases "process_file conv args src_root dest_root inc exc f s") auto
  have "counts_agree s'" using counts_agree_process_file[OF Cons.prems p] .
  then show ?case using Cons.IH[of s'] p by simp
qed

lemma status_partition:
  "length (filter (\<lambda>fr. fr_status fr = Converted) rs)
   + length (filter (\<lambda>fr. fr_status fr = Skipped) rs)
   + length (filter (\<lambda>fr. fr_status fr = Failed) rs) = length rs"
proof (induction rs)
  case Nil
  then show ?case by simp
next
  case (Cons r rs)
  then show ?case by (cases "fr_status r") auto
qed

lemma counts_agree_run_loop: "counts_agree (run_loop conv entries fs1 log args)"
  unfolding run_loop_def
  by (rule counts_agree_convert_loop) (simp add: counts_agree_def initial_state_def)

section \<open>Exceptions of the filesystem calls\<close>

fun is_preflight_exceeded :: "py_exception \<Rightarrow> bool" where
  "is_preflight_exceeded (PreflightExceeded stats th) = True"
| "is_preflight_exceeded e = False"

fun is_confirm_event :: "event \<Rightarrow> bool" where
  "is_confirm_event (ConfirmCalled stats th) = True"
| "is_confirm_event (ConvertCalled p) = False"

lemma os_mkdir_error: "os_mkdir fs p = Inl e \<Longrightarrow> \<not> is_preflight_exceeded e"
  by (auto simp: os_mkdir_def split: if_splits)

lemma mkdir_parents_error: "mkdir_parents fs p = Inl e \<Longrightarrow> \<not> is_preflight_exceeded e"
proof (induction fs p arbitrary: e rule: mkdir_parents.induct)
  case (1 fs p)
  show ?case
  proof (cases "os_mkdir fs p")
    case (Inr fs')
    then show ?thesis using "1.prems" by (subst (asm) mkdir_parents.simps) simp
  next
    case (Inl e0)
    note e0 = os_mkdir_error[OF Inl]
    show ?thesis
    proof (cases "is_file_not_found e0 \<and> parent p \<noteq> p")
      case False
      then show ?thesis using "1.prems" Inl e0
        by (subst (asm) mkdir_parents.simps) (auto split: if_splits)
    next
      case True
      show ?thesis
      proof (cases "mkdir_parents fs (parent p)")
        case e1: (Inl e1)
        have "\<not> is_preflight_exceeded e1"
          using "1.IH"[OF Inl _ _ e1] True by simp
        then show ?thesis using "1.prems" Inl True e1
          by (subst (asm) mkdir_parents.simps) simp
      next
        case (Inr fs1)
        from os_mkdir_after_parent[OF Inl _ _ Inr] True
        obtain fs2 where "os_mkdir fs1 p = Inr fs2" by blast
        then show ?thesis using "1.prems" Inl True Inr
          by (subst (asm) mkdir_parents.simps) simp
      qed
    qed
  qed
qed

lemma write_atomic_error:
  assumes "write_atomic fs p data = (fs', Some e)"
  shows "\<not> is_preflight_exceeded e"
proof (cases rule: write_atomic_cases[of fs p data])
  case (mkdir_failed e')
  then show ?thesis using assms mkdir_parents_error by auto
next
  case (open_failed fs1 e')
  then have "\<not> is_preflight_exceeded e'"
    by (auto simp: open_write_def split: if_splits)
  then show ?thesis using assms open_failed by simp
next
  case (replace_failed fs1 e')
  then have "\<not> is_preflight_exceeded e'"
    by (auto simp: os_replace_def split: if_splits)
  then show ?thesis using assms replace_failed by simp
next
  case (written fs1 fs4)
  then show ?thesis using assms by simp
qed

section \<open>What a write leaves in place\<close>





section \<open>The log of a run\<close>

lemma process_file_log:
  "\<exists>called. ls_log (fst (process_file conv args src_root dest_root inc exc f s))
     = ls_log s @ map ConvertCalled called"
proof (cases rule: process_file_cases[of inc f exc conv args src_root dest_root s])
  case filtered
  then have "ls_log (fst (process_file conv args src_root dest_root inc exc f s))
     = ls_log s @ map ConvertCalled []" by (simp add: record_skipped_def)
  then show ?thesis by blast
next
  case (conv_raised e)
  then have "ls_log (fst (process_file conv args src_root dest_root inc exc f s))
     = ls_log s @ map ConvertCalled [f]" by simp
  then show ?thesis by blast
next
  case (dest_exists md_text)
  then have "ls_log (fst (process_file conv args src_root dest_root inc exc f s))
     = ls_log s @ map ConvertCalled [f]" by simp
  then show ?thesis by blast
next
  case (write_raised md_text final_out fs' e)
  then have "ls_log (fst (process_file conv args src_root dest_root inc exc f s))
     = ls_log s @ map ConvertCalled [f]" by simp
  then show ?thesis by blast
next
  case (written md_text final_out fs')
  then have "ls_log (fst (process_file conv args src_root dest_root inc exc f s))
     = ls_log s @ map ConvertCalled [f]" by simp
  then show ?thesis by blast
qed

lemma convert_loop_log:
  "\<exists>called. ls_log (convert_loop conv args src_root dest_root inc exc fs s)
     = ls_log s @ map ConvertCalled called"
proof (induction fs arbitrary: s)
  case Nil
  have "ls_log s = ls_log s @ map ConvertCalled []" by simp
  then show ?case by (simp only: convert_loop.simps) blast
next
  case (Cons f fs)
  obtain s' go_on where p: "process_file conv args src_root dest_root inc exc f s = (s', go_on)"
    by (cases "process_file conv args src_root dest_root inc exc f s") auto
  from process_file_log[of conv args src_root dest_root inc exc f s] p
  obtain c1 where c1: "ls_log s' = ls_log s @ map ConvertCalled c1" by auto
  show ?case
  proof (cases go_on)
    case False
    then show ?thesis using p c1 by auto
  next
    case True
    from Cons.IH[of s'] obtain c2 where
      "ls_log (convert_loop conv args src_root dest_root inc exc fs s') = ls_log s' @ map ConvertCalled c2"
      by blast
    then have "ls_log (convert_loop conv args src_root dest_root inc exc (f # fs) s)
        = ls_log s @ map ConvertCalled (c1 @ c2)"
      using p True c1 by simp
    then show ?thesis by blast
  qed
qed

lemma run_loop_log:
  "\<exists>called. ls_log (run_loop conv entries fs1 log args) = log @ map ConvertCalled called"
  using convert_loop_log[of conv args "arg_root args" "dest_root_of args"
      "normalize_exts (arg_include_ext args)" "normalize_exts (arg_exclude_ext args)"
      "iter_files (arg_root args) entries (arg_skip_hidden args)" "initial_state fs1 log"]
  by (simp add: run_loop_def initial_state_def)

section \<open>The threshold gate\<close>

definition gate_refuses :: "preflight_stats \<Rightarrow> thresholds
                              \<Rightarrow> (preflight_stats \<Rightarrow> thresholds \<Rightarrow> bool) option \<Rightarrow> bool" where
  "gate_refuses stats th confirm =
     (exceeded stats th \<and> (case confirm of None \<Rightarrow> True | Some ask \<Rightarrow> \<not> ask stats th))"

definition gate_log :: "preflight_stats \<Rightarrow> thresholds
                          \<Rightarrow> (preflight_stats \<Rightarrow> thresholds \<Rightarrow> bool) option \<Rightarrow> event list" where
  "gate_log stats th confirm =
     (if exceeded stats th \<and> confirm \<noteq> None then [ConfirmCalled stats th] else [])"

lemma preflight_gate_eq:
  "preflight_gate stats th confirm
     = (gate_log stats th confirm,
        if gate_refuses stats th confirm then Some (PreflightExceeded stats th) else None)"
  by (auto simp: preflight_gate_def gate_log_def gate_refuses_def split: option.splits)

section \<open>Outcomes appended by a turn\<close>


section \<open>The destination root stays a directory\<close>




section \<open>Skipping on conflict\<close>

text \<open>
  Claim C1, as the code has it. Under the policy \<open>skip\<close>, for a candidate that passes the
  extension filters and whose derived destination path exists when its turn comes, the
  converter is called first. When it returns, the outcome recorded is skipped with the
  reason \<open>exists\<close>; when it raises, the outcome recorded is a failure. In both cases the
  filesystem is left as it was.
\<close>

theorem C1_skip_on_conflict:
  assumes "arg_on_conflict args = Skip"
    and "\<not> not_included inc f" and "\<not> excluded exc f"
    and "path_exists (ls_fs s) (derive_output_path f src_root dest_root)"
  shows "(conv f = Inr md_text \<longrightarrow>
            process_file conv args src_root dest_root inc exc f s
              = (s\<lparr>ls_log := ls_log s @ [ConvertCalled f],
                   ls_results := ls_results s @ [skipped_result f ''exists''],
                   ls_skipped := ls_skipped s + 1\<rparr>, True)) \<and>
         (conv f = Inl e \<longrightarrow>
            process_file conv args src_root dest_root inc exc f s
              = (s\<lparr>ls_log := ls_log s @ [ConvertCalled f],
                   ls_results := ls_results s @ [failed_result f (exception_str e)],
                   ls_failed := ls_failed s + 1\<rparr>, arg_continue_on_error args)) \<and>
         ls_fs (fst (process_file conv args src_root dest_root inc exc f s)) = ls_fs s \<and>
         ls_log (fst (process_file conv args src_root dest_root inc exc f s))
           = ls_log s @ [ConvertCalled f]"
proof (cases rule: process_file_cases[of inc f exc conv args src_root dest_root s])
  case filtered
  then show ?thesis using assms by simp
next
  case (conv_raised e')
  then show ?thesis by simp
next
  case (dest_exists md_text')
  then show ?thesis by simp
next
  case (write_raised md_text' final_out fs' e')
  then show ?thesis using assms by simp
next
  case (written md_text' final_out fs')
  then show ?thesis using assms by simp
qed

theorem C1_skip_on_conflict_witness:
  "arg_on_conflict example_skip_args = Skip \<and>
   path_exists example_dest (derive_output_path [''src'', ''file.txt''] [''src''] [''out'']) \<and>
   example_conv [''src'', ''file.txt''] = Inr (''# file.txt'' @ newline @ newline @ ''Converted from /src/file.txt'') \<and>
   process_file example_conv example_skip_args [''src''] [''out''] None None [''src'', ''file.txt'']
       (initial_state example_dest [])
     = ((initial_state example_dest [])
          \<lparr>ls_log := [ConvertCalled [''src'', ''file.txt'']],
            ls_results := [skipped_result [''src'', ''file.txt''] ''exists''],
            ls_skipped := 1\<rparr>, True)"
proof -
  let ?f = "[''src'', ''file.txt'']" and ?s = "initial_state example_dest []"
  have p: "arg_on_conflict example_skip_args = Skip"
    by (simp add: example_skip_args_def example_args_def)
  have ex: "path_exists example_dest (derive_output_path ?f [''src''] [''out''])"
    by code_simp
  have c: "example_conv ?f = Inr (''# file.txt'' @ newline @ newline @ ''Converted from /src/file.txt'')"
    by code_simp
  have n: "\<not> not_included None ?f" "\<not> excluded None ?f"
    by (simp_all add: not_included_def excluded_def)
  have ex': "path_exists (ls_fs ?s) (derive_output_path ?f [''src''] [''out''])"
    using ex by (simp add: initial_state_def)
  from C1_skip_on_conflict[OF p n ex', of example_conv
      "''# file.txt'' @ newline @ newline @ ''Converted from /src/file.txt''"] c
  have "process_file example_conv example_skip_args [''src''] [''out''] None None ?f ?s
     = (?s\<lparr>ls_log := ls_log ?s @ [ConvertCalled ?f],
           ls_results := ls_results ?s @ [skipped_result ?f ''exists''],
           ls_skipped := ls_skipped ?s + 1\<rparr>, True)"
    by blast
  then have "process_file example_conv example_skip_args [''src''] [''out''] None None ?f ?s
     = (?s\<lparr>ls_log := [ConvertCalled ?f], ls_results := [skipped_result ?f ''exists''],
           ls_skipped := 1\<rparr>, True)"
    by (simp add: initial_state_def)
  then show ?thesis using p ex c by blast
qed

text \<open>
  The claim as written says the converter is not invoked on such a file. In a run whose
  destination already holds \<open>file.md\<close>, the file \<open>file.txt\<close> is recorded as skipped with
  the reason \<open>exists\<close>, and the converter has been called on it.
\<close>

theorem C1_converter_invoked_counterexample:
  "arg_on_conflict example_skip_args = Skip \<and>
   path_exists example_dest (derive_output_path [''src'', ''file.txt''] [''src''] [''out'']) \<and>
   map fr_reason (br_files (projr (snd (bulk_convert example_conv
        (Some [File ''file.txt'' (Some 1)]) example_dest example_skip_args)))) = [Some ''exists''] \<and>
   ConvertCalled [''src'', ''file.txt'']
     \<in> set (snd (fst (bulk_convert example_conv
        (Some [File ''file.txt'' (Some 1)]) example_dest example_skip_args)))"
proof -
  have a: "arg_on_conflict example_skip_args = Skip"
    by (simp add: example_skip_args_def example_args_def)
  have b: "path_exists example_dest (derive_output_path [''src'', ''file.txt''] [''src''] [''out''])"
    by code_simp
  have c: "map fr_reason (br_files (projr (snd (bulk_convert example_conv
        (Some [File ''file.txt'' (Some 1)]) example_dest example_skip_args)))) = [Some ''exists'']"
    by code_simp
  have d: "snd (fst (bulk_convert example_conv
        (Some [File ''file.txt'' (Some 1)]) example_dest example_skip_args))
      = [ConvertCalled [''src'', ''file.txt'']]"
    by code_simp
  show ?thesis using a b c unfolding d by simp
qed

section \<open>Conflict renaming: the first free candidate\<close>

lemma unique_loop_least:
  "\<exists>k. unique_loop fs p i = rename_candidate p (i + k) \<and>
       \<not> path_exists fs (rename_candidate p (i + k)) \<and>
       (\<forall>j<k. path_exists fs (rename_candidate p (i + j)))"
proof (induction fs p i rule: unique_loop.induct)
  case (1 fs p i)
  show ?case
  proof (cases "path_exists fs (rename_candidate p i)")
    case False
    then have "unique_loop fs p i = rename_candidate p (i + 0) \<and>
       \<not> path_exists fs (rename_candidate p (i + 0)) \<and>
       (\<forall>j<0. path_exists fs (rename_candidate p (i + j)))"
      by (subst unique_loop.simps) simp
    then show ?thesis by blast
  next
    case True
    with 1 obtain k where k: "unique_loop fs p (i + 1) = rename_candidate p (i + 1 + k)"
        "\<not> path_exists fs (rename_candidate p (i + 1 + k))"
        "\<forall>j<k. path_exists fs (rename_candidate p (i + 1 + j))"
      by auto
    have "\<forall>j<Suc k. path_exists fs (rename_candidate p (i + j))"
    proof (intro allI impI)
      fix j assume "j < Suc k"
      show "path_exists fs (rename_candidate p (i + j))"
      proof (cases j)
        case 0
        then show ?thesis using True by simp
      next
        case (Suc j')
        then have "j' < k" using \<open>j < Suc k\<close> by simp
        then show ?thesis using k(3) Suc by simp
      qed
    qed
    moreover have "unique_loop fs p i = rename_candidate p (i + Suc k)"
      using True k(1) by (subst unique_loop.simps) simp
    moreover have "\<not> path_exists fs (rename_candidate p (i + Suc k))"
      using k(2) by simp
    ultimately show ?thesis by blast
  qed
qed

lemma dropWhile_append_length:
  "\<not> P y \<Longrightarrow> Suc (length ys) \<le> length (dropWhile P (xs @ y # ys))"
  by (induction xs) auto

lemma counter_match_tail:
  assumes "ds \<noteq> []" and "\<forall>c \<in> set ds. is_digit c"
  shows "counter_match ('' ('' @ ds @ '')'')"
proof -
  have nd: "\<not> is_digit (CHR '')'')" by (simp add: is_digit_def)
  have "takeWhile is_digit (ds @ '')'') = ds"
    using assms(2) nd by (simp add: takeWhile_append2)
  moreover have "dropWhile is_digit (ds @ '')'') = '')''"
    using assms(2) nd by (simp add: dropWhile_append2)
  ultimately show ?thesis using assms(1) by (simp add: counter_match_def)
qed

lemma counter_match_not_before:
  "\<not> counter_match (c # b @ '' ('' @ ds @ '')'')"
proof (cases b)
  case Nil
  then show ?thesis by (simp add: counter_match_def)
next
  case (Cons c2 b')
  have "\<not> is_digit (CHR '' '')" by (simp add: is_digit_def)
  then have "Suc (length (''('' @ ds @ '')'')) \<le> length (dropWhile is_digit (b' @ CHR '' '' # (''('' @ ds @ '')'')))"
    by (rule dropWhile_append_length)
  then have "3 \<le> length (dropWhile is_digit (b' @ '' ('' @ ds @ '')''))" by simp
  then have "dropWhile is_digit (b' @ '' ('' @ ds @ '')'') \<noteq> '')'' \<and>
             dropWhile is_digit (b' @ '' ('' @ ds @ '')'') \<noteq> [CHR '')'', CHR 0x0A]"
    by auto
  then show ?thesis using Cons by (simp add: counter_match_def)
qed

lemma counter_search_tail:
  assumes "ds \<noteq> []" and "\<forall>c \<in> set ds. is_digit c"
  shows "counter_search (b @ '' ('' @ ds @ '')'') = Some (length b)"
proof (induction b)
  case Nil
  have "counter_search ('' ('' @ ds @ '')'') = Some 0"
    using counter_match_tail[OF assms] by simp
  then show ?case by simp
next
  case (Cons c b)
  have "\<not> counter_match ((c # b) @ '' ('' @ ds @ '')'')"
    using counter_match_not_before[of c b ds] by simp
  then show ?case using Cons by simp
qed

text \<open>
  Claim C5. \<open>_unique_path\<close> returns a path that does not exist unchanged. For a path
  that exists it returns the candidate \<open>base (i).ext\<close> with the least \<open>i \<ge> 1\<close> for which
  that candidate does not exist, where \<open>base\<close> is the stem without a trailing counter:
  a stem that ends in \<open>" (n)"\<close> loses exactly that ending, so a counter is replaced and
  never stacked on another.
\<close>

theorem C5_unique_path:
  "(\<not> path_exists fs p \<longrightarrow> unique_path fs p = p) \<and>
   (path_exists fs p \<longrightarrow>
      (\<exists>i\<ge>1. unique_path fs p = rename_candidate p i \<and>
             \<not> path_exists fs (rename_candidate p i) \<and>
             (\<forall>j. 1 \<le> j \<and> j < i \<longrightarrow> path_exists fs (rename_candidate p j)))) \<and>
   (ds \<noteq> [] \<and> (\<forall>c \<in> set ds. is_digit c) \<and> stem p = b @ '' ('' @ ds @ '')''
      \<longrightarrow> base_stem p = b)"
proof (intro conjI impI)
  assume "\<not> path_exists fs p"
  then show "unique_path fs p = p" by (simp add: unique_path_def)
next
  assume ex: "path_exists fs p"
  from unique_loop_least[of fs p 1] obtain k where
    k: "unique_loop fs p 1 = rename_candidate p (1 + k)"
       "\<not> path_exists fs (rename_candidate p (1 + k))"
       "\<forall>j<k. path_exists fs (rename_candidate p (1 + j))"
    by blast
  have "\<forall>j. 1 \<le> j \<and> j < 1 + k \<longrightarrow> path_exists fs (rename_candidate p j)"
  proof (intro allI impI)
    fix j assume j: "1 \<le> j \<and> j < 1 + k"
    then have "j - 1 < k" by arith
    then have "path_exists fs (rename_candidate p (1 + (j - 1)))" using k(3) by blast
    then show "path_exists fs (rename_candidate p j)" using j by simp
  qed
  then have "1 \<le> 1 + k \<and> unique_path fs p = rename_candidate p (1 + k) \<and>
      \<not> path_exists fs (rename_candidate p (1 + k)) \<and>
      (\<forall>j. 1 \<le> j \<and> j < 1 + k \<longrightarrow> path_exists fs (rename_candidate p j))"
    using ex k by (simp add: unique_path_def)
  then show "\<exists>i\<ge>1. unique_path fs p = rename_candidate p i \<and>
             \<not> path_exists fs (rename_candidate p i) \<and>
             (\<forall>j. 1 \<le> j \<and> j < i \<longrightarrow> path_exists fs (rename_candidate p j))"
    by blast
next
  assume a: "ds \<noteq> [] \<and> (\<forall>c \<in> set ds. is_digit c) \<and> stem p = b @ '' ('' @ ds @ '')''"
  then have "counter_search (stem p) = Some (length b)"
    using counter_search_tail[of ds b] by simp
  then show "base_stem p = b" using a by (simp add: base_stem_def)
qed

theorem C5_unique_path_witness:
  "path_exists example_dest [''out'', ''file (1).md''] \<and>
   stem [''out'', ''file (1).md''] = ''file'' @ '' ('' @ ''1'' @ '')'' \<and>
   base_stem [''out'', ''file (1).md''] = ''file'' \<and>
   unique_path example_dest [''out'', ''file (1).md''] = [''out'', ''file (2).md''] \<and>
   unique_path example_dest [''out'', ''file.md''] = [''out'', ''file (2).md''] \<and>
   unique_path example_dest [''out'', ''new.md''] = [''out'', ''new.md''] \<and>
   (\<exists>i\<ge>1. unique_path example_dest [''out'', ''file (1).md'']
             = rename_candidate [''out'', ''file (1).md''] i \<and>
          \<not> path_exists example_dest (rename_candidate [''out'', ''file (1).md''] i) \<and>
          (\<forall>j. 1 \<le> j \<and> j < i \<longrightarrow>
               path_exists example_dest (rename_candidate [''out'', ''file (1).md''] j)))"
proof -
  have ex: "path_exists example_dest [''out'', ''file (1).md'']" by code_simp
  have st: "stem [''out'', ''file (1).md''] = ''file'' @ '' ('' @ ''1'' @ '')''" by code_simp
  have dg: "''1'' \<noteq> [] \<and> (\<forall>c \<in> set ''1''. is_digit c)" by (simp add: is_digit_def)
  have u1: "unique_path example_dest [''out'', ''file (1).md''] = [''out'', ''file (2).md'']"
    by code_simp
  have u2: "unique_path example_dest [''out'', ''file.md''] = [''out'', ''file (2).md'']"
    by code_simp
  have u3: "unique_path example_dest [''out'', ''new.md''] = [''out'', ''new.md'']"
    by code_simp
  note t = C5_unique_path[of example_dest "[''out'', ''file (1).md'']" "''1''" "''file''"]
  have b: "base_stem [''out'', ''file (1).md''] = ''file''"
    using t dg st by blast
  have l: "\<exists>i\<ge>1. unique_path example_dest [''out'', ''file (1).md'']
             = rename_candidate [''out'', ''file (1).md''] i \<and>
          \<not> path_exists example_dest (rename_candidate [''out'', ''file (1).md''] i) \<and>
          (\<forall>j. 1 \<le> j \<and> j < i \<longrightarrow>
               path_exists example_dest (rename_candidate [''out'', ''file (1).md''] j))"
    using t ex by blast
  show ?thesis
    by (intro conjI) (rule ex, rule st, rule b, rule u1, rule u2, rule u3, rule l)
qed

section \<open>Hidden entries\<close>

definition visible_file :: "string \<times> nat option \<Rightarrow> bool" where
  "visible_file f = (\<not> startswith (fst f) ''.'')"

lemma dir_names_strip_hidden:
  "dir_names (strip_hidden es) = filter (\<lambda>d. \<not> startswith d ''.'') (dir_names es)"
  by (induction es rule: strip_hidden.induct) auto

lemma file_names_strip_hidden:
  "file_names (strip_hidden es) = filter visible_file (file_names es)"
  by (induction es rule: strip_hidden.induct) (auto simp: visible_file_def)

lemma os_walk_strip_hidden_both:
  "os_walk (\<lambda>d. True) top_dir (strip_hidden es)
     = map (\<lambda>(dp, dn, fns). (dp, dn, filter visible_file fns))
           (os_walk (\<lambda>d. \<not> startswith d ''.'') top_dir es) \<and>
   walk_subdirs (\<lambda>d. True) top_dir (strip_hidden es)
     = map (\<lambda>(dp, dn, fns). (dp, dn, filter visible_file fns))
           (walk_subdirs (\<lambda>d. \<not> startswith d ''.'') top_dir es)"
proof (induction es arbitrary: top_dir rule: measure_induct_rule[where f="size_list size"])
  case (less es)
  have sub: "walk_subdirs (\<lambda>d. True) top_dir (strip_hidden es)
     = map (\<lambda>(dp, dn, fns). (dp, dn, filter visible_file fns))
           (walk_subdirs (\<lambda>d. \<not> startswith d ''.'') top_dir es)"
  proof (cases es)
    case Nil
    then show ?thesis by simp
  next
    case (Cons e rest)
    have rest: "walk_subdirs (\<lambda>d. True) top_dir (strip_hidden rest)
       = map (\<lambda>(dp, dn, fns). (dp, dn, filter visible_file fns))
             (walk_subdirs (\<lambda>d. \<not> startswith d ''.'') top_dir rest)"
      using less.IH[of rest top_dir] Cons by simp
    show ?thesis
    proof (cases e)
      case (File n sz)
      then show ?thesis using Cons rest by simp
    next
      case (Dir n cs)
      have "os_walk (\<lambda>d. True) (top_dir @ [n]) (strip_hidden cs)
         = map (\<lambda>(dp, dn, fns). (dp, dn, filter visible_file fns))
               (os_walk (\<lambda>d. \<not> startswith d ''.'') (top_dir @ [n]) cs)"
        using less.IH[of cs "top_dir @ [n]"] Cons Dir by simp
      then show ?thesis using Cons Dir rest by simp
    qed
  qed
  then show ?case
    by (simp add: os_walk.simps dir_names_strip_hidden file_names_strip_hidden)
qed

lemmas os_walk_strip_hidden = os_walk_strip_hidden_both[THEN conjunct1]

lemma iter_files_strip_hidden:
  "iter_files root (strip_hidden es) False = iter_files root es True"
proof -
  define w where "w = os_walk (\<lambda>d. \<not> startswith d ''.'') root es"
  have h: "map ((\<lambda>(dirpath, dirnames, filenames). map (\<lambda>(fn, sz). dirpath @ [fn]) filenames)
               \<circ> (\<lambda>(dp, dn, fns). (dp, dn, filter visible_file fns))) w
      = map (\<lambda>(dirpath, dirnames, filenames).
               map (\<lambda>(fn, sz). dirpath @ [fn]) (filter (\<lambda>(fn, sz). \<not> startswith fn ''.'') filenames)) w"
    by (rule map_cong) (auto simp: visible_file_def[abs_def] case_prod_unfold)
  have l: "iter_files root (strip_hidden es) False
      = concat (map ((\<lambda>(dirpath, dirnames, filenames). map (\<lambda>(fn, sz). dirpath @ [fn]) filenames)
               \<circ> (\<lambda>(dp, dn, fns). (dp, dn, filter visible_file fns))) w)"
    by (simp add: iter_files_def os_walk_strip_hidden w_def)
  have r: "iter_files root es True
      = concat (map (\<lambda>(dirpath, dirnames, filenames).
               map (\<lambda>(fn, sz). dirpath @ [fn]) (filter (\<lambda>(fn, sz). \<not> startswith fn ''.'') filenames)) w)"
    by (simp add: iter_files_def w_def)
  show ?thesis unfolding l r by (rule arg_cong[where f=concat]) (rule h)
qed

lemma preflight_sizes_visible:
  "preflight_sizes False (filter visible_file fns) t = preflight_sizes True fns t"
  by (induction fns arbitrary: t) (auto simp: visible_file_def split: option.splits)

lemma preflight_loop_visible:
  "preflight_loop False (map (\<lambda>(dp, dn, fns). (dp, dn, filter visible_file fns)) w) acc
     = preflight_loop True w acc"
proof (induction w arbitrary: acc)
  case Nil
  then show ?case by simp
next
  case (Cons x w)
  obtain dp dn fns where x: "x = (dp, dn, fns)" by (cases x) auto
  obtain d f b where acc: "acc = (d, f, b)" by (cases acc) auto
  have "length (filter (\<lambda>(f, sz). True) (filter visible_file fns))
      = length (filter (\<lambda>(f, sz). \<not> startswith f ''.'') fns)"
    by (simp add: visible_file_def[abs_def] case_prod_unfold)
  then show ?case
    using Cons.IH by (simp add: x acc preflight_sizes_visible)
qed

lemma preflight_strip_hidden:
  "preflight root (strip_hidden es) False = preflight root es True"
  by (simp add: preflight_def os_walk_strip_hidden preflight_loop_visible)

lemma os_walk_dirpaths_both:
  "(\<forall>x \<in> set (os_walk (\<lambda>d. \<not> startswith d ''.'') top_dir es).
      \<exists>rel. fst x = top_dir @ rel \<and> (\<forall>c \<in> set rel. \<not> startswith c ''.'')) \<and>
   (\<forall>x \<in> set (walk_subdirs (\<lambda>d. \<not> startswith d ''.'') top_dir es).
      \<exists>rel. fst x = top_dir @ rel \<and> (\<forall>c \<in> set rel. \<not> startswith c ''.''))"
proof (induction es arbitrary: top_dir rule: measure_induct_rule[where f="size_list size"])
  case (less es)
  have sub: "\<forall>x \<in> set (walk_subdirs (\<lambda>d. \<not> startswith d ''.'') top_dir es).
      \<exists>rel. fst x = top_dir @ rel \<and> (\<forall>c \<in> set rel. \<not> startswith c ''.'')"
  proof (cases es)
    case Nil
    then show ?thesis by simp
  next
    case (Cons e rest)
    have rest: "\<forall>x \<in> set (walk_subdirs (\<lambda>d. \<not> startswith d ''.'') top_dir rest).
        \<exists>rel. fst x = top_dir @ rel \<and> (\<forall>c \<in> set rel. \<not> startswith c ''.'')"
      using less.IH[of rest top_dir] Cons by simp
    show ?thesis
    proof (cases e)
      case (File n sz)
      then show ?thesis using Cons rest by simp
    next
      case (Dir n cs)
      have inner: "\<forall>x \<in> set (os_walk (\<lambda>d. \<not> startswith d ''.'') (top_dir @ [n]) cs).
          \<exists>rel. fst x = (top_dir @ [n]) @ rel \<and> (\<forall>c \<in> set rel. \<not> startswith c ''.'')"
        using less.IH[of cs "top_dir @ [n]"] Cons Dir by simp
      have "\<exists>rel. fst x = top_dir @ rel \<and> (\<forall>c \<in> set rel. \<not> startswith c ''.'')"
        if x: "x \<in> set (os_walk (\<lambda>d. \<not> startswith d ''.'') (top_dir @ [n]) cs)"
          and n: "\<not> startswith n ''.''" for x
      proof -
        from inner x obtain rel where
          "fst x = (top_dir @ [n]) @ rel" "\<forall>c \<in> set rel. \<not> startswith c ''.''" by blast
        then have "fst x = top_dir @ (n # rel) \<and> (\<forall>c \<in> set (n # rel). \<not> startswith c ''.'')"
          using n by simp
        then show ?thesis by blast
      qed
      then show ?thesis using Cons Dir rest by auto
    qed
  qed
  have "\<exists>rel. top_dir = top_dir @ rel \<and> (\<forall>c \<in> set rel. \<not> startswith c ''.'')"
    by (rule exI[where x="[]"]) simp
  then show ?case using sub by (simp add: os_walk.simps)
qed

lemma os_walk_dirpaths:
  "(dp, dn, fns) \<in> set (os_walk (\<lambda>d. \<not> startswith d ''.'') top_dir es)
     \<Longrightarrow> \<exists>rel. dp = top_dir @ rel \<and> (\<forall>c \<in> set rel. \<not> startswith c ''.'')"
  using os_walk_dirpaths_both[of top_dir es, THEN conjunct1] by fastforce

lemma iter_files_no_hidden:
  assumes "p \<in> set (iter_files root es True)"
  shows "\<exists>rel. p = root @ rel \<and> (\<forall>c \<in> set rel. \<not> startswith c ''.'')"
proof -
  from assms obtain dp dn fns fn sz where
    w: "(dp, dn, fns) \<in> set (os_walk (\<lambda>d. \<not> startswith d ''.'') root es)"
    and f: "(fn, sz) \<in> set fns" "\<not> startswith fn ''.''" and p: "p = dp @ [fn]"
    by (auto simp: iter_files_def)
  from os_walk_dirpaths[OF w] obtain rel where
    "dp = root @ rel" "\<forall>c \<in> set rel. \<not> startswith c ''.''" by blast
  then have "p = root @ (rel @ [fn]) \<and> (\<forall>c \<in> set (rel @ [fn]). \<not> startswith c ''.'')"
    using f p by simp
  then show ?thesis by blast
qed

text \<open>
  Claim C6. With \<open>skip_hidden\<close> set, no path the traversal yields has, below the root,
  a component whose name starts with a dot; the traversal yields exactly what it yields
  on the tree from which every hidden file and directory has been removed, and the
  preflight statistics (directories, files, bytes) are those of that tree.
\<close>

theorem C6_hidden_excluded:
  "(\<forall>p \<in> set (iter_files root es True).
       \<exists>rel. p = root @ rel \<and> (\<forall>c \<in> set rel. \<not> startswith c ''.'')) \<and>
   iter_files root es True = iter_files root (strip_hidden es) False \<and>
   preflight root es True = preflight root (strip_hidden es) False"
  using iter_files_no_hidden iter_files_strip_hidden preflight_strip_hidden by metis

theorem C6_hidden_excluded_witness:
  "iter_files [''src''] example_tree True = iter_files [''src''] (strip_hidden example_tree) False \<and>
   preflight [''src''] example_tree True = preflight [''src''] (strip_hidden example_tree) False \<and>
   iter_files [''src''] example_tree True
     = [[''src'', ''top.md''], [''src'', ''a'', ''f1.txt''], [''src'', ''a'', ''f2.pdf''],
        [''src'', ''b'', ''g.docx'']] \<and>
   preflight [''src''] example_tree True
     = \<lparr>ps_root = [''src''], ps_dirs = 3, ps_files = 4, ps_bytes = 13\<rparr> \<and>
   preflight [''src''] example_tree False
     = \<lparr>ps_root = [''src''], ps_dirs = 5, ps_files = 7, ps_bytes = 29\<rparr>"
proof -
  have a: "iter_files [''src''] example_tree True
     = [[''src'', ''top.md''], [''src'', ''a'', ''f1.txt''], [''src'', ''a'', ''f2.pdf''],
        [''src'', ''b'', ''g.docx'']]"
    by (simp add: iter_files_def preflight_def example_tree_def startswith_def os_walk.simps)
  have b: "preflight [''src''] example_tree True
     = \<lparr>ps_root = [''src''], ps_dirs = 3, ps_files = 4, ps_bytes = 13\<rparr>"
    by (simp add: iter_files_def preflight_def example_tree_def startswith_def os_walk.simps)
  have c: "preflight [''src''] example_tree False
     = \<lparr>ps_root = [''src''], ps_dirs = 5, ps_files = 7, ps_bytes = 29\<rparr>"
    by (simp add: iter_files_def preflight_def example_tree_def startswith_def os_walk.simps)
  note t = C6_hidden_excluded[of "[''src'']" example_tree, THEN conjunct2]
  show ?thesis
    by (intro conjI) (rule t[THEN conjunct1], rule t[THEN conjunct2], rule a, rule b, rule c)
qed

section \<open>The totals of a run\<close>

text \<open>
  Claim C3. When \<open>bulk_convert\<close> returns, the three counters of the \<open>BulkResult\<close> add up
  to the number of its file outcomes; each counter is the number of outcomes with its
  status, and the totals of words and headings are the sums over the converted outcomes.
\<close>

theorem C3_result_counts:
  assumes "bulk_convert conv root_tree fs args = (w, Inr r)"
  shows "br_converted r + br_skipped r + br_failed r = length (br_files r) \<and>
         br_total_words r
           = sum_list (map (\<lambda>fr. count_or_zero (fr_words fr))
                           (filter (\<lambda>fr. fr_status fr = Converted) (br_files r))) \<and>
         br_total_headings r
           = sum_list (map (\<lambda>fr. count_or_zero (fr_headings fr))
                           (filter (\<lambda>fr. fr_status fr = Converted) (br_files r))) \<and>
         br_converted r = length (filter (\<lambda>fr. fr_status fr = Converted) (br_files r)) \<and>
         br_skipped r = length (filter (\<lambda>fr. fr_status fr = Skipped) (br_files r)) \<and>
         br_failed r = length (filter (\<lambda>fr. fr_status fr = Failed) (br_files r))"
proof (cases rule: bulk_convert_cases[of root_tree conv fs args])
  case bad_root
  then show ?thesis using assms by simp
next
  case (mkdir_raised entries e)
  then show ?thesis using assms by simp
next
  case (gate_raised entries fs1 log e)
  then show ?thesis using assms by simp
next
  case (report_raised entries fs1 log fs' e)
  then show ?thesis using assms by simp
next
  case (returned entries fs1 log fs')
  then have r: "r = run_result conv entries fs1 log args" using assms by simp
  have c: "counts_agree (run_loop conv entries fs1 log args)"
    by (rule counts_agree_run_loop)
  have "br_converted r + br_skipped r + br_failed r = length (br_files r)"
    using c status_partition[of "ls_results (run_loop conv entries fs1 log args)"]
    by (simp add: r run_result_def result_of_def counts_agree_def)
  then show ?thesis
    using c by (simp add: r run_result_def result_of_def counts_agree_def)
qed

theorem C3_result_counts_witness:
  "\<not> isl (snd (bulk_convert example_conv (Some example_tree) fmempty example_args)) \<and>
   br_converted (projr (snd (bulk_convert example_conv (Some example_tree) fmempty example_args))) = 3 \<and>
   br_failed (projr (snd (bulk_convert example_conv (Some example_tree) fmempty example_args))) = 1 \<and>
   br_total_words (projr (snd (bulk_convert example_conv (Some example_tree) fmempty example_args))) = 15 \<and>
   br_converted (projr (snd (bulk_convert example_conv (Some example_tree) fmempty example_args)))
   + br_skipped (projr (snd (bulk_convert example_conv (Some example_tree) fmempty example_args)))
   + br_failed (projr (snd (bulk_convert example_conv (Some example_tree) fmempty example_args)))
     = length (br_files (projr (snd (bulk_convert example_conv (Some example_tree) fmempty example_args))))"
proof -
  define run where "run = bulk_convert example_conv (Some example_tree) fmempty example_args"
  have ok: "\<not> isl (snd run)" unfolding run_def by code_simp
  have c: "br_converted (projr (snd run)) = 3" unfolding run_def by code_simp
  have f: "br_failed (projr (snd run)) = 1" unfolding run_def by code_simp
  have tw: "br_total_words (projr (snd run)) = 15" unfolding run_def by code_simp
  have "run = (fst run, Inr (projr (snd run)))"
    using ok by (cases run; cases "snd run") auto
  then have "bulk_convert example_conv (Some example_tree) fmempty example_args
      = (fst run, Inr (projr (snd run)))"
    by (simp only: run_def)
  from C3_result_counts[OF this]
  have s: "br_converted (projr (snd run)) + br_skipped (projr (snd run)) + br_failed (projr (snd run))
      = length (br_files (projr (snd run)))"
    by blast
  show ?thesis
    using ok c f tw s unfolding run_def by blast
qed

section \<open>Failures of single files\<close>





section \<open>Atomic write\<close>

lemma write_atomic_old_states:
  assumes "mkdir_parents fs (parent p) = Inr fs1"
    and "s \<in> set (fs # mkdir_parents_states fs (parent p)
           @ map (\<lambda>n. fmupd (tmp_path p) (FileNode (take n data)) (fmupd (tmp_path p) (FileNode []) fs1))
                 [0..<Suc (length data)])"
  shows "fmlookup s p = fmlookup fs p"
proof -
  from assms(2) consider "s = fs" | "s \<in> set (mkdir_parents_states fs (parent p))"
    | n where "s = fmupd (tmp_path p) (FileNode (take n data)) (fmupd (tmp_path p) (FileNode []) fs1)"
    by (auto simp del: upt_Suc)
  then show ?thesis
  proof cases
    case 1
    then show ?thesis by simp
  next
    case 2
    then show ?thesis by (rule mkdir_parent_states_keep)
  next
    case 3
    then show ?thesis using tmp_path_neq[of p] mkdir_parent_keeps[OF assms(1)] by simp
  qed
qed

text \<open>
  Claim C9. \<open>_write_atomic(path, content)\<close> makes the ancestors of \<open>path\<close>, writes the
  content to the sibling \<open>path.name + ".tmp"\<close> and replaces \<open>path\<close> by it in one step.
  In every state of the filesystem during the call, \<open>path\<close> holds what it held before
  the call or the complete new content; before the last state it holds what it held
  before. When the call returns, \<open>path\<close> holds the content, its parent is a directory and
  the temporary file is gone; when it raises, \<open>path\<close> holds what it held before.
\<close>

theorem C9_write_atomic:
  "(\<forall>s \<in> set (write_atomic_states fs p data).
       fmlookup s p = fmlookup fs p \<or> fmlookup s p = Some (FileNode data)) \<and>
   (\<forall>s \<in> set (butlast (write_atomic_states fs p data)). fmlookup s p = fmlookup fs p) \<and>
   last (write_atomic_states fs p data) = fst (write_atomic fs p data) \<and>
   (snd (write_atomic fs p data) = None \<longrightarrow>
      fmlookup (fst (write_atomic fs p data)) p = Some (FileNode data) \<and>
      is_dir (fst (write_atomic fs p data)) (parent p) \<and>
      fmlookup (fst (write_atomic fs p data)) (tmp_path p) = None) \<and>
   (snd (write_atomic fs p data) \<noteq> None \<longrightarrow>
      fmlookup (fst (write_atomic fs p data)) p = fmlookup fs p) \<and>
   tmp_path p \<noteq> p \<and> parent (tmp_path p) = parent p"
proof -
  let ?S = "write_atomic_states fs p data" and ?R = "write_atomic fs p data"
  have "(\<forall>s \<in> set ?S. fmlookup s p = fmlookup fs p \<or> fmlookup s p = Some (FileNode data)) \<and>
        (\<forall>s \<in> set (butlast ?S). fmlookup s p = fmlookup fs p) \<and>
        last ?S = fst ?R \<and>
        (snd ?R = None \<longrightarrow>
           fmlookup (fst ?R) p = Some (FileNode data) \<and> is_dir (fst ?R) (parent p) \<and>
           fmlookup (fst ?R) (tmp_path p) = None) \<and>
        (snd ?R \<noteq> None \<longrightarrow> fmlookup (fst ?R) p = fmlookup fs p)"
  proof (cases rule: write_atomic_cases[of fs p data])
    case (mkdir_failed e)
    show ?thesis unfolding mkdir_failed(2,3) by simp
  next
    case (open_failed fs1 e)
    have old: "\<forall>s \<in> set (fs # mkdir_parents_states fs (parent p)). fmlookup s p = fmlookup fs p"
      using mkdir_parent_states_keep by auto
    then have c2: "\<forall>s \<in> set (butlast (fs # mkdir_parents_states fs (parent p))). fmlookup s p = fmlookup fs p"
      by (meson in_set_butlastD)
    have c3: "last (fs # mkdir_parents_states fs (parent p)) = fs1"
      using mkdir_parents_states_last[OF open_failed(1)] .
    have c5: "fmlookup fs1 p = fmlookup fs p"
      using mkdir_parent_keeps[OF open_failed(1)] .
    show ?thesis unfolding open_failed(3,4) fst_conv snd_conv
      using old c2 c3 c5 by blast
  next
    case (replace_failed fs1 e)
    define old where "old = fs # mkdir_parents_states fs (parent p)
           @ map (\<lambda>n. fmupd (tmp_path p) (FileNode (take n data)) (fmupd (tmp_path p) (FileNode []) fs1))
                 [0..<Suc (length data)]"
    define fs3 where "fs3 = fmupd (tmp_path p) (FileNode data) (fmupd (tmp_path p) (FileNode []) fs1)"
    have S: "?S = old" using replace_failed(5) by (simp only: old_def)
    have R: "?R = (fs3, Some e)" using replace_failed(4) by (simp only: fs3_def)
    have c1: "\<forall>s \<in> set old. fmlookup s p = fmlookup fs p"
      using write_atomic_old_states[OF replace_failed(1)] unfolding old_def by blast
    then have c2: "\<forall>s \<in> set (butlast old). fmlookup s p = fmlookup fs p"
      by (meson in_set_butlastD)
    have c3: "last old = fs3"
      unfolding old_def fs3_def by simp
    have c5: "fmlookup fs3 p = fmlookup fs p"
      unfolding fs3_def using tmp_path_neq[of p] mkdir_parent_keeps[OF replace_failed(1)] by simp
    show ?thesis unfolding S R fst_conv snd_conv
      using c1 c2 c3 c5 by blast
  next
    case (written fs1 fs4)
    define old where "old = fs # mkdir_parents_states fs (parent p)
           @ map (\<lambda>n. fmupd (tmp_path p) (FileNode (take n data)) (fmupd (tmp_path p) (FileNode []) fs1))
                 [0..<Suc (length data)]"
    have S: "?S = old @ [fs4]" using written(6) by (simp only: old_def append_Cons append_assoc)
    have R: "?R = (fs4, None)" using written(5) .
    have old: "\<forall>s \<in> set old. fmlookup s p = fmlookup fs p"
      using write_atomic_old_states[OF written(1)] unfolding old_def by blast
    have new: "fmlookup fs4 p = Some (FileNode data)"
      using written(4) tmp_path_neq[of p] by simp
    have gone: "fmlookup fs4 (tmp_path p) = None"
      using written(4) by simp
    have "is_dir fs1 (parent p)" using mkdir_parents_is_dir[OF written(1)] .
    moreover have "parent p \<noteq> tmp_path p"
      using tmp_path_length[of p] by auto
    moreover have "parent p \<noteq> p \<or> parent p = []"
      by (auto simp: parent_fixed)
    ultimately have dir: "is_dir fs4 (parent p)"
      using written(4) by (auto simp: is_dir_def)
    have c1: "\<forall>s \<in> set (old @ [fs4]). fmlookup s p = fmlookup fs p \<or> fmlookup s p = Some (FileNode data)"
      using old new by auto
    have c2: "\<forall>s \<in> set (butlast (old @ [fs4])). fmlookup s p = fmlookup fs p"
      using old by (simp only: butlast_snoc)
    have c3: "last (old @ [fs4]) = fs4" by simp
    show ?thesis unfolding S R fst_conv snd_conv
      using c1 c2 c3 new gone dir by blast
  qed
  then show ?thesis using tmp_path_neq[of p] parent_tmp_path[of p] by blast
qed

theorem C9_write_atomic_witness:
  "3 < length (butlast (write_atomic_states example_dest [''out'', ''file.md''] ''new'')) \<and>
   fmlookup (butlast (write_atomic_states example_dest [''out'', ''file.md''] ''new'') ! 3)
            [''out'', ''file.md''] = Some (FileNode ''first'') \<and>
   snd (write_atomic example_dest [''out'', ''file.md''] ''new'') = None \<and>
   fmlookup (fst (write_atomic example_dest [''out'', ''file.md''] ''new'')) [''out'', ''file.md'']
     = Some (FileNode ''new'') \<and>
   last (write_atomic_states example_dest [''out'', ''file.md''] ''new'')
     = fst (write_atomic example_dest [''out'', ''file.md''] ''new'')"
proof -
  have len: "length (butlast (write_atomic_states example_dest [''out'', ''file.md''] ''new'')) = 5"
    by code_simp
  have ok: "snd (write_atomic example_dest [''out'', ''file.md''] ''new'') = None"
    by code_simp
  have before: "fmlookup example_dest [''out'', ''file.md''] = Some (FileNode ''first'')"
    by code_simp
  have l: "3 < length (butlast (write_atomic_states example_dest [''out'', ''file.md''] ''new''))"
    unfolding len by simp
  have mem: "butlast (write_atomic_states example_dest [''out'', ''file.md''] ''new'') ! 3
      \<in> set (butlast (write_atomic_states example_dest [''out'', ''file.md''] ''new''))"
    by (rule nth_mem) (rule l)
  note t = C9_write_atomic[of example_dest "[''out'', ''file.md'']" "''new''"]
  have a: "fmlookup (butlast (write_atomic_states example_dest [''out'', ''file.md''] ''new'') ! 3)
            [''out'', ''file.md''] = Some (FileNode ''first'')"
    using t mem before by simp
  have b: "fmlookup (fst (write_atomic example_dest [''out'', ''file.md''] ''new'')) [''out'', ''file.md'']
     = Some (FileNode ''new'')"
    using t ok by blast
  have c: "last (write_atomic_states example_dest [''out'', ''file.md''] ''new'')
     = fst (write_atomic example_dest [''out'', ''file.md''] ''new'')"
    using t by blast
  show ?thesis
    by (intro conjI) (rule l, rule a, rule ok, rule b, rule c)
qed

section \<open>The preflight gate\<close>

lemma log_shape:
  assumes "L = g @ map ConvertCalled called" and "length g \<le> 1"
  shows "length (filter is_confirm_event L) \<le> 1 \<and>
         (\<forall>i<length L. is_confirm_event (L ! i) \<longrightarrow> i = 0)"
proof
  have "filter is_confirm_event (map ConvertCalled called) = []"
    by (induction called) auto
  then have "length (filter is_confirm_event L) \<le> length g"
    using assms(1) by simp
  then show "length (filter is_confirm_event L) \<le> 1" using assms(2) by simp
next
  show "\<forall>i<length L. is_confirm_event (L ! i) \<longrightarrow> i = 0"
  proof (intro allI impI)
    fix i assume i: "i < length L" and c: "is_confirm_event (L ! i)"
    show "i = 0"
    proof (cases "i < length g")
      case True
      then show ?thesis using assms(2) by simp
    next
      case False
      then have "L ! i = ConvertCalled (called ! (i - length g))"
        using assms(1) i by (simp add: nth_append)
      then show ?thesis using c by simp
    qed
  qed
qed

lemma bulk_convert_log:
  "\<exists>g called. snd (fst (bulk_convert conv root_tree fs args)) = g @ map ConvertCalled called \<and>
      length g \<le> 1"
proof (cases rule: bulk_convert_cases[of root_tree conv fs args])
  case bad_root
  then have "snd (fst (bulk_convert conv root_tree fs args)) = [] @ map ConvertCalled []" by simp
  then show ?thesis by (metis list.size(3) zero_le)
next
  case (mkdir_raised entries e)
  then have "snd (fst (bulk_convert conv root_tree fs args)) = [] @ map ConvertCalled []" by simp
  then show ?thesis by (metis list.size(3) zero_le)
next
  case (gate_raised entries fs1 log e)
  then have "snd (fst (bulk_convert conv root_tree fs args)) = log @ map ConvertCalled []"
    and "length log \<le> 1"
    by (auto simp: preflight_gate_eq gate_log_def)
  then show ?thesis by blast
next
  case (report_raised entries fs1 log fs' e)
  from run_loop_log[of conv entries fs1 log args] obtain called where
    "ls_log (run_loop conv entries fs1 log args) = log @ map ConvertCalled called" by blast
  then have "snd (fst (bulk_convert conv root_tree fs args)) = log @ map ConvertCalled called"
    using report_raised(5) by simp
  moreover have "length log \<le> 1"
    using report_raised(3) by (auto simp: preflight_gate_eq gate_log_def)
  ultimately show ?thesis by blast
next
  case (returned entries fs1 log fs')
  from run_loop_log[of conv entries fs1 log args] obtain called where
    "ls_log (run_loop conv entries fs1 log args) = log @ map ConvertCalled called" by blast
  then have "snd (fst (bulk_convert conv root_tree fs args)) = log @ map ConvertCalled called"
    using returned(5) by simp
  moreover have "length log \<le> 1"
    using returned(3) by (auto simp: preflight_gate_eq gate_log_def)
  ultimately show ?thesis by blast
qed

lemma bulk_convert_confirm_called:
  assumes "root_tree = Some entries" and "mkdir_parents fs (dest_root_of args) = Inr fs1"
    and "exceeded (preflight (arg_root args) entries (arg_skip_hidden args)) (thresholds_of args)"
    and "arg_confirm args = Some ask"
  shows "filter is_confirm_event (snd (fst (bulk_convert conv root_tree fs args)))
         = [ConfirmCalled (preflight (arg_root args) entries (arg_skip_hidden args)) (thresholds_of args)]"
proof -
  let ?st = "preflight (arg_root args) entries (arg_skip_hidden args)" and ?th = "thresholds_of args"
  have nc: "filter is_confirm_event (map ConvertCalled called) = []" for called
    by (induction called) auto
  have g: "gate_log ?st ?th (arg_confirm args) = [ConfirmCalled ?st ?th]"
    using assms(3,4) by (simp add: gate_log_def)
  show ?thesis
  proof (cases rule: bulk_convert_cases[of root_tree conv fs args])
    case bad_root
    then show ?thesis using assms by simp
  next
    case (mkdir_raised entries' e)
    then show ?thesis using assms by simp
  next
    case (gate_raised entries' fs1' log e)
    then show ?thesis using assms g by (simp add: preflight_gate_eq)
  next
    case (report_raised entries' fs1' log fs' e)
    then have l: "log = [ConfirmCalled ?st ?th]" using assms g by (simp add: preflight_gate_eq)
    from run_loop_log[of conv entries' fs1' log args] obtain called where
      "ls_log (run_loop conv entries' fs1' log args) = log @ map ConvertCalled called" by blast
    then show ?thesis using report_raised(5) l nc by simp
  next
    case (returned entries' fs1' log fs')
    then have l: "log = [ConfirmCalled ?st ?th]" using assms g by (simp add: preflight_gate_eq)
    from run_loop_log[of conv entries' fs1' log args] obtain called where
      "ls_log (run_loop conv entries' fs1' log args) = log @ map ConvertCalled called" by blast
    then show ?thesis using returned(5) l nc by simp
  qed
qed

lemma bulk_convert_preflight_exceeded:
  assumes "snd (bulk_convert conv root_tree fs args) = Inl (PreflightExceeded st th)"
  shows "\<exists>entries fs1. root_tree = Some entries \<and>
           mkdir_parents fs (dest_root_of args) = Inr fs1 \<and>
           st = preflight (arg_root args) entries (arg_skip_hidden args) \<and>
           th = thresholds_of args \<and>
           exceeded st th \<and>
           (arg_confirm args = None \<or> (\<exists>ask. arg_confirm args = Some ask \<and> \<not> ask st th)) \<and>
           bulk_convert conv root_tree fs args
             = ((fs1, gate_log st th (arg_confirm args)), Inl (PreflightExceeded st th))"
proof (cases rule: bulk_convert_cases[of root_tree conv fs args])
  case bad_root
  then show ?thesis using assms by simp
next
  case (mkdir_raised entries e)
  then show ?thesis using assms mkdir_parents_error[OF mkdir_raised(2)] by simp
next
  case (gate_raised entries fs1 log e)
  then show ?thesis using assms
    by (auto simp: preflight_gate_eq gate_refuses_def split: if_splits option.splits)
next
  case (report_raised entries fs1 log fs' e)
  then show ?thesis using assms write_atomic_error[OF report_raised(4)] by simp
next
  case (returned entries fs1 log fs')
  then show ?thesis using assms by simp
qed

lemma bulk_convert_gate_refused:
  assumes "root_tree = Some entries" and "mkdir_parents fs (dest_root_of args) = Inr fs1"
    and "exceeded (preflight (arg_root args) entries (arg_skip_hidden args)) (thresholds_of args)"
    and "arg_confirm args = None \<or>
         (\<exists>ask. arg_confirm args = Some ask \<and>
            \<not> ask (preflight (arg_root args) entries (arg_skip_hidden args)) (thresholds_of args))"
  shows "snd (bulk_convert conv root_tree fs args)
     = Inl (PreflightExceeded (preflight (arg_root args) entries (arg_skip_hidden args))
              (thresholds_of args))"
  using assms
  by (auto simp: bulk_convert_def Let_def preflight_gate_eq gate_refuses_def)

text \<open>
  Claim C2. \<open>bulk_convert\<close> raises \<open>PreflightExceeded\<close> exactly when the run reaches the
  gate (the root is a directory and the destination root could be made), the preflight
  statistics exceed a threshold, and no callback was given or the callback answered
  false. The exception carries the statistics and the thresholds, and its message holds
  both. When it is raised the converter has not been called and the filesystem differs
  from the one before the call only by directories made for the destination root. In
  every run the callback is called at most once, and before any call of the converter.
\<close>

theorem C2_preflight_gate:
  "((\<exists>st th. snd (bulk_convert conv root_tree fs args) = Inl (PreflightExceeded st th)) \<longleftrightarrow>
      (\<exists>entries fs1. root_tree = Some entries \<and>
          mkdir_parents fs (dest_root_of args) = Inr fs1 \<and>
          exceeded (preflight (arg_root args) entries (arg_skip_hidden args)) (thresholds_of args) \<and>
          (arg_confirm args = None \<or>
           (\<exists>ask. arg_confirm args = Some ask \<and>
              \<not> ask (preflight (arg_root args) entries (arg_skip_hidden args)) (thresholds_of args))))) \<and>
   (\<forall>st th. snd (bulk_convert conv root_tree fs args) = Inl (PreflightExceeded st th) \<longrightarrow>
      (\<exists>entries fs1. root_tree = Some entries \<and>
          mkdir_parents fs (dest_root_of args) = Inr fs1 \<and>
          st = preflight (arg_root args) entries (arg_skip_hidden args) \<and>
          th = thresholds_of args \<and>
          fst (fst (bulk_convert conv root_tree fs args)) = fs1 \<and>
          (\<forall>p. ConvertCalled p \<notin> set (snd (fst (bulk_convert conv root_tree fs args)))) \<and>
          (\<forall>q. fmlookup fs1 q = fmlookup fs q \<or>
               (fmlookup fs q = None \<and> fmlookup fs1 q = Some DirNode)))) \<and>
   length (filter is_confirm_event (snd (fst (bulk_convert conv root_tree fs args)))) \<le> 1 \<and>
   (\<forall>entries fs1 ask. root_tree = Some entries \<and>
       mkdir_parents fs (dest_root_of args) = Inr fs1 \<and>
       exceeded (preflight (arg_root args) entries (arg_skip_hidden args)) (thresholds_of args) \<and>
       arg_confirm args = Some ask \<longrightarrow>
       filter is_confirm_event (snd (fst (bulk_convert conv root_tree fs args)))
         = [ConfirmCalled (preflight (arg_root args) entries (arg_skip_hidden args)) (thresholds_of args)]) \<and>
   (\<forall>i<length (snd (fst (bulk_convert conv root_tree fs args))).
       is_confirm_event (snd (fst (bulk_convert conv root_tree fs args)) ! i) \<longrightarrow> i = 0) \<and>
   exception_str (PreflightExceeded st0 th0)
     = ''Preflight limits exceeded: dirs='' @ str_nat (ps_dirs st0) @ ''/'' @ str_int (max_dirs th0)
       @ '', files='' @ str_nat (ps_files st0) @ ''/'' @ str_int (max_files th0)
       @ '', bytes='' @ str_nat (ps_bytes st0) @ ''/'' @ str_int (max_bytes th0)"
proof -
  let ?run = "bulk_convert conv root_tree fs args"
  have iff: "(\<exists>st th. snd ?run = Inl (PreflightExceeded st th)) \<longleftrightarrow>
      (\<exists>entries fs1. root_tree = Some entries \<and>
          mkdir_parents fs (dest_root_of args) = Inr fs1 \<and>
          exceeded (preflight (arg_root args) entries (arg_skip_hidden args)) (thresholds_of args) \<and>
          (arg_confirm args = None \<or>
           (\<exists>ask. arg_confirm args = Some ask \<and>
              \<not> ask (preflight (arg_root args) entries (arg_skip_hidden args)) (thresholds_of args))))"
  proof
    assume "\<exists>st th. snd ?run = Inl (PreflightExceeded st th)"
    then obtain st th where "snd ?run = Inl (PreflightExceeded st th)" by blast
    from bulk_convert_preflight_exceeded[OF this] show
      "\<exists>entries fs1. root_tree = Some entries \<and>
          mkdir_parents fs (dest_root_of args) = Inr fs1 \<and>
          exceeded (preflight (arg_root args) entries (arg_skip_hidden args)) (thresholds_of args) \<and>
          (arg_confirm args = None \<or>
           (\<exists>ask. arg_confirm args = Some ask \<and>
              \<not> ask (preflight (arg_root args) entries (arg_skip_hidden args)) (thresholds_of args)))"
      by blast
  next
    assume "\<exists>entries fs1. root_tree = Some entries \<and>
          mkdir_parents fs (dest_root_of args) = Inr fs1 \<and>
          exceeded (preflight (arg_root args) entries (arg_skip_hidden args)) (thresholds_of args) \<and>
          (arg_confirm args = None \<or>
           (\<exists>ask. arg_confirm args = Some ask \<and>
              \<not> ask (preflight (arg_root args) entries (arg_skip_hidden args)) (thresholds_of args)))"
    then show "\<exists>st th. snd ?run = Inl (PreflightExceeded st th)"
      using bulk_convert_gate_refused[of root_tree _ fs args _ conv] by blast
  qed
  have carries: "\<exists>entries fs1. root_tree = Some entries \<and>
          mkdir_parents fs (dest_root_of args) = Inr fs1 \<and>
          st = preflight (arg_root args) entries (arg_skip_hidden args) \<and>
          th = thresholds_of args \<and>
          fst (fst ?run) = fs1 \<and>
          (\<forall>p. ConvertCalled p \<notin> set (snd (fst ?run))) \<and>
          (\<forall>q. fmlookup fs1 q = fmlookup fs q \<or>
               (fmlookup fs q = None \<and> fmlookup fs1 q = Some DirNode))"
    if r: "snd ?run = Inl (PreflightExceeded st th)" for st th
  proof -
    from bulk_convert_preflight_exceeded[OF r] obtain entries fs1 where
      e: "root_tree = Some entries" "mkdir_parents fs (dest_root_of args) = Inr fs1"
         "st = preflight (arg_root args) entries (arg_skip_hidden args)" "th = thresholds_of args"
         "?run = ((fs1, gate_log st th (arg_confirm args)), Inl (PreflightExceeded st th))"
      by blast
    have "\<forall>p. ConvertCalled p \<notin> set (snd (fst ?run))"
      unfolding e(5) by (simp add: gate_log_def)
    moreover have "fst (fst ?run) = fs1" unfolding e(5) by simp
    moreover have "\<forall>q. fmlookup fs1 q = fmlookup fs q \<or>
               (fmlookup fs q = None \<and> fmlookup fs1 q = Some DirNode)"
      using mkdir_parents_lookup[OF e(2)] by blast
    ultimately show ?thesis using e(1-4) by blast
  qed
  from bulk_convert_log[of conv root_tree fs args] obtain g called where
    "snd (fst ?run) = g @ map ConvertCalled called" "length g \<le> 1" by blast
  from log_shape[OF this] have once: "length (filter is_confirm_event (snd (fst ?run))) \<le> 1"
    and first: "\<forall>i<length (snd (fst ?run)). is_confirm_event (snd (fst ?run) ! i) \<longrightarrow> i = 0"
    by blast+
  have msg: "exception_str (PreflightExceeded st0 th0)
     = ''Preflight limits exceeded: dirs='' @ str_nat (ps_dirs st0) @ ''/'' @ str_int (max_dirs th0)
       @ '', files='' @ str_nat (ps_files st0) @ ''/'' @ str_int (max_files th0)
       @ '', bytes='' @ str_nat (ps_bytes st0) @ ''/'' @ str_int (max_bytes th0)"
    by simp
  have called: "filter is_confirm_event (snd (fst ?run))
         = [ConfirmCalled (preflight (arg_root args) entries (arg_skip_hidden args)) (thresholds_of args)]"
    if "root_tree = Some entries \<and>
       mkdir_parents fs (dest_root_of args) = Inr fs1 \<and>
       exceeded (preflight (arg_root args) entries (arg_skip_hidden args)) (thresholds_of args) \<and>
       arg_confirm args = Some ask" for entries fs1 ask
    using that bulk_convert_confirm_called[of root_tree entries fs args fs1 ask conv] by blast
  show ?thesis
    by (intro conjI allI impI)
       (rule iff, erule carries, rule once, erule called, rule first[rule_format], assumption+, rule msg)
qed

theorem C2_preflight_gate_witness:
  "(\<exists>st th. snd (bulk_convert example_conv (Some example_three) fmempty example_gate_args)
              = Inl (PreflightExceeded st th)) \<and>
   snd (bulk_convert example_conv (Some example_three) fmempty example_gate_args)
     = Inl (PreflightExceeded \<lparr>ps_root = [''src''], ps_dirs = 1, ps_files = 3, ps_bytes = 3\<rparr>
              \<lparr>max_dirs = 1, max_files = 2, max_bytes = 10\<rparr>) \<and>
   exception_str (PreflightExceeded \<lparr>ps_root = [''src''], ps_dirs = 1, ps_files = 3, ps_bytes = 3\<rparr>
              \<lparr>max_dirs = 1, max_files = 2, max_bytes = 10\<rparr>)
     = ''Preflight limits exceeded: dirs=1/1, files=3/2, bytes=3/10'' \<and>
   snd (fst (bulk_convert example_conv (Some example_three) fmempty
              (example_gate_args\<lparr>arg_confirm := Some (\<lambda>st th. False)\<rparr>)))
     = [ConfirmCalled \<lparr>ps_root = [''src''], ps_dirs = 1, ps_files = 3, ps_bytes = 3\<rparr>
              \<lparr>max_dirs = 1, max_files = 2, max_bytes = 10\<rparr>] \<and>
   br_converted (projr (snd (bulk_convert example_conv (Some example_three) fmempty
              (example_gate_args\<lparr>arg_confirm := Some (\<lambda>st th. True)\<rparr>)))) = 3"
proof -
  have r: "Some example_three = Some example_three" by simp
  have m: "mkdir_parents fmempty (dest_root_of example_gate_args) = Inr (fmupd [''out''] DirNode fmempty)"
    by code_simp
  have x: "exceeded (preflight (arg_root example_gate_args) example_three
              (arg_skip_hidden example_gate_args)) (thresholds_of example_gate_args)"
    by code_simp
  have n: "arg_confirm example_gate_args = None"
    by (simp add: example_gate_args_def example_args_def)
  have a: "\<exists>st th. snd (bulk_convert example_conv (Some example_three) fmempty example_gate_args)
              = Inl (PreflightExceeded st th)"
    using C2_preflight_gate[of example_conv "Some example_three" fmempty example_gate_args] r m x n
    by blast
  have b: "snd (bulk_convert example_conv (Some example_three) fmempty example_gate_args)
     = Inl (PreflightExceeded \<lparr>ps_root = [''src''], ps_dirs = 1, ps_files = 3, ps_bytes = 3\<rparr>
              \<lparr>max_dirs = 1, max_files = 2, max_bytes = 10\<rparr>)"
    by code_simp
  have c: "exception_str (PreflightExceeded \<lparr>ps_root = [''src''], ps_dirs = 1, ps_files = 3, ps_bytes = 3\<rparr>
              \<lparr>max_dirs = 1, max_files = 2, max_bytes = 10\<rparr>)
     = ''Preflight limits exceeded: dirs=1/1, files=3/2, bytes=3/10''"
    by code_simp
  have d: "snd (fst (bulk_convert example_conv (Some example_three) fmempty
              (example_gate_args\<lparr>arg_confirm := Some (\<lambda>st th. False)\<rparr>)))
     = [ConfirmCalled \<lparr>ps_root = [''src''], ps_dirs = 1, ps_files = 3, ps_bytes = 3\<rparr>
              \<lparr>max_dirs = 1, max_files = 2, max_bytes = 10\<rparr>]"
    by code_simp
  have e: "br_converted (projr (snd (bulk_convert example_conv (Some example_three) fmempty
              (example_gate_args\<lparr>arg_confirm := Some (\<lambda>st th. True)\<rparr>)))) = 3"
    by code_simp
  show ?thesis
    by (intro conjI) (rule a, rule b, rule c, rule d, rule e)
qed


section \<open>The destination root is made before the gate\<close>




section \<open>Running twice with the policy skip\<close>



















section \<open>The counts of a converted file\<close>

text \<open>The counts of an outcome are those of the text the converter returned for its source.\<close>

definition counts_of_output :: "converter \<Rightarrow> bulk_file_result \<Rightarrow> bool" where
  "counts_of_output conv fr =
     (case conv (fr_src fr) of
        Inl e \<Rightarrow> False
      | Inr md_text \<Rightarrow>
          fr_words fr = Some (length (token_starts md_text)) \<and>
          fr_headings fr = Some (length (filter first_nonspace_is_hash (splitlines md_text))))"

lemma counts_of_outputD:
  assumes "counts_of_output conv fr"
  shows "\<exists>md_text. conv (fr_src fr) = Inr md_text \<and>
           fr_words fr = Some (length (token_starts md_text)) \<and>
           fr_headings fr = Some (length (filter first_nonspace_is_hash (splitlines md_text)))"
proof (cases "conv (fr_src fr)")
  case (Inl e)
  then show ?thesis using assms by (simp add: counts_of_output_def)
next
  case (Inr md_text)
  then show ?thesis using assms by (simp add: counts_of_output_def)
qed

lemma process_file_counts:
  assumes "process_file conv args src_root dest_root inc exc f s = (s', go_on)"
    and "\<forall>fr \<in> set (ls_results s). fr_status fr = Converted \<longrightarrow> counts_of_output conv fr"
  shows "\<forall>fr \<in> set (ls_results s'). fr_status fr = Converted \<longrightarrow> counts_of_output conv fr"
proof (cases rule: process_file_cases[of inc f exc conv args src_root dest_root s])
  case filtered
  then show ?thesis using assms by (auto simp: record_skipped_def skipped_result_def)
next
  case (conv_raised e)
  then show ?thesis using assms by (auto simp: failed_result_def)
next
  case (dest_exists md_text)
  then show ?thesis using assms by (auto simp: skipped_result_def)
next
  case (write_raised md_text final_out fs' e)
  then show ?thesis using assms by (auto simp: failed_result_def)
next
  case (written md_text final_out fs')
  then show ?thesis using assms
    by (auto simp: converted_result_def counts_of_output_def count_words_and_headings_tokens)
qed

lemma convert_loop_counts:
  assumes "\<forall>fr \<in> set (ls_results s). fr_status fr = Converted \<longrightarrow> counts_of_output conv fr"
  shows "\<forall>fr \<in> set (ls_results (convert_loop conv args src_root dest_root inc exc files s)).
           fr_status fr = Converted \<longrightarrow> counts_of_output conv fr"
  using assms
proof (induction files arbitrary: s)
  case Nil
  then show ?case by simp
next
  case (Cons f files)
  obtain s' go_on where p: "process_file conv args src_root dest_root inc exc f s = (s', go_on)"
    by (cases "process_file conv args src_root dest_root inc exc f s") auto
  note i = process_file_counts[OF p Cons.prems]
  show ?case
  proof (cases go_on)
    case True
    then show ?thesis using Cons.IH[OF i] p by simp
  next
    case False
    then show ?thesis using i p by simp
  qed
qed

text \<open>
  Claim C8. A turn in which the converter returns the text \<open>md_text\<close> and the write
  succeeds records a converted outcome whose word count is the number of
  whitespace-delimited tokens of \<open>md_text\<close> (one per position where a non-whitespace
  character starts the text or follows a whitespace character) and whose heading count
  is the number of lines of \<open>md_text\<close>, as \<open>str.splitlines\<close> cuts them, whose first
  non-whitespace character is \<open>#\<close>. So in the result of every run that returns, each
  outcome with status \<open>converted\<close> carries these two counts of the text the converter
  returns for its source.
\<close>

theorem C8_counts:
  "(\<not> not_included inc f \<and> \<not> excluded exc f \<and> conv f = Inr md_text \<and>
    \<not> (arg_on_conflict args = Skip \<and> path_exists (ls_fs s) (derive_output_path f src_root dest_root)) \<and>
    final_out = (case arg_on_conflict args of
                   Rename \<Rightarrow> unique_path (ls_fs s) (derive_output_path f src_root dest_root)
                 | Skip \<Rightarrow> derive_output_path f src_root dest_root) \<and>
    write_atomic (ls_fs s) final_out md_text = (fs', None) \<longrightarrow>
      process_file conv args src_root dest_root inc exc f s
        = (s\<lparr>ls_fs := fs',
             ls_log := ls_log s @ [ConvertCalled f],
             ls_results := ls_results s @
               [\<lparr>fr_src = f, fr_dest = Some final_out, fr_status = Converted, fr_reason = None,
                 fr_words = Some (length (token_starts md_text)),
                 fr_headings = Some (length (filter first_nonspace_is_hash (splitlines md_text)))\<rparr>],
             ls_converted := ls_converted s + 1,
             ls_total_words := ls_total_words s + length (token_starts md_text),
             ls_total_headings := ls_total_headings s
               + length (filter first_nonspace_is_hash (splitlines md_text))\<rparr>, True)) \<and>
   (bulk_convert conv root_tree fs args = (w, Inr r) \<longrightarrow>
      (\<forall>fr \<in> set (br_files r). fr_status fr = Converted \<longrightarrow>
         (\<exists>md_text. conv (fr_src fr) = Inr md_text \<and>
            fr_words fr = Some (length (token_starts md_text)) \<and>
            fr_headings fr
              = Some (length (filter first_nonspace_is_hash (splitlines md_text))))))"
proof (intro conjI impI)
  assume a: "\<not> not_included inc f \<and> \<not> excluded exc f \<and> conv f = Inr md_text \<and>
    \<not> (arg_on_conflict args = Skip \<and> path_exists (ls_fs s) (derive_output_path f src_root dest_root)) \<and>
    final_out = (case arg_on_conflict args of
                   Rename \<Rightarrow> unique_path (ls_fs s) (derive_output_path f src_root dest_root)
                 | Skip \<Rightarrow> derive_output_path f src_root dest_root) \<and>
    write_atomic (ls_fs s) final_out md_text = (fs', None)"
  show "process_file conv args src_root dest_root inc exc f s
        = (s\<lparr>ls_fs := fs',
             ls_log := ls_log s @ [ConvertCalled f],
             ls_results := ls_results s @
               [\<lparr>fr_src = f, fr_dest = Some final_out, fr_status = Converted, fr_reason = None,
                 fr_words = Some (length (token_starts md_text)),
                 fr_headings = Some (length (filter first_nonspace_is_hash (splitlines md_text)))\<rparr>],
             ls_converted := ls_converted s + 1,
             ls_total_words := ls_total_words s + length (token_starts md_text),
             ls_total_headings := ls_total_headings s
               + length (filter first_nonspace_is_hash (splitlines md_text))\<rparr>, True)"
  proof (cases "arg_on_conflict args")
    case Rename
    then have fo: "final_out = unique_path (ls_fs s) (derive_output_path f src_root dest_root)"
      using a by simp
    have wr: "write_atomic (ls_fs s)
                (unique_path (ls_fs s) (derive_output_path f src_root dest_root)) md_text
              = (fs', None)"
      using a unfolding fo by blast
    have c: "conv f = Inr md_text" "\<not> not_included inc f" "\<not> excluded exc f"
      using a by blast+
    show ?thesis
      unfolding fo using Rename wr c
      by (simp add: process_file_def try_convert_def Let_def write_output_def
          converted_result_def count_words_and_headings_tokens)
  next
    case Skip
    then have fo: "final_out = derive_output_path f src_root dest_root"
      using a by simp
    have wr: "write_atomic (ls_fs s) (derive_output_path f src_root dest_root) md_text
              = (fs', None)"
      using a unfolding fo by blast
    have c: "conv f = Inr md_text" "\<not> not_included inc f" "\<not> excluded exc f"
      "\<not> path_exists (ls_fs s) (derive_output_path f src_root dest_root)"
      using a Skip by blast+
    show ?thesis
      unfolding fo using Skip wr c
      by (simp add: process_file_def try_convert_def Let_def write_output_def
          converted_result_def count_words_and_headings_tokens)
  qed
next
  assume b: "bulk_convert conv root_tree fs args = (w, Inr r)"
  have "\<forall>fr \<in> set (br_files r). fr_status fr = Converted \<longrightarrow> counts_of_output conv fr"
  proof (cases rule: bulk_convert_cases[of root_tree conv fs args])
    case bad_root
    then show ?thesis using b by simp
  next
    case (mkdir_raised entries e)
    then show ?thesis using b by simp
  next
    case (gate_raised entries fs1 log e)
    then show ?thesis using b by simp
  next
    case (report_raised entries fs1 log fs' e)
    then show ?thesis using b by simp
  next
    case (returned entries fs1 log fs')
    then have "r = run_result conv entries fs1 log args" using b by simp
    then have r: "br_files r = ls_results (run_loop conv entries fs1 log args)"
      by (simp add: run_result_def result_of_def)
    have "\<forall>fr \<in> set (ls_results (initial_state fs1 log)).
            fr_status fr = Converted \<longrightarrow> counts_of_output conv fr"
      by (simp add: initial_state_def)
    from convert_loop_counts[OF this] show ?thesis
      unfolding r run_loop_def by blast
  qed
  then show "\<forall>fr \<in> set (br_files r). fr_status fr = Converted \<longrightarrow>
         (\<exists>md_text. conv (fr_src fr) = Inr md_text \<and>
            fr_words fr = Some (length (token_starts md_text)) \<and>
            fr_headings fr
              = Some (length (filter first_nonspace_is_hash (splitlines md_text))))"
    using counts_of_outputD by blast
qed

text \<open>
  The run on the example tree: its first outcome is the converted \<open>/src/top.md\<close>, whose
  text has five tokens and one heading line.
\<close>

theorem C8_counts_witness:
  "\<not> isl (snd (bulk_convert example_conv (Some example_tree) fmempty example_args)) \<and>
   fr_status (hd (br_files (projr (snd (bulk_convert example_conv (Some example_tree) fmempty
      example_args))))) = Converted \<and>
   fr_src (hd (br_files (projr (snd (bulk_convert example_conv (Some example_tree) fmempty
      example_args))))) = [''src'', ''top.md''] \<and>
   example_conv [''src'', ''top.md'']
     = Inr (''# top.md'' @ newline @ newline @ ''Converted from /src/top.md'') \<and>
   fr_words (hd (br_files (projr (snd (bulk_convert example_conv (Some example_tree) fmempty
      example_args)))))
     = Some (length (token_starts (''# top.md'' @ newline @ newline @ ''Converted from /src/top.md''))) \<and>
   fr_headings (hd (br_files (projr (snd (bulk_convert example_conv (Some example_tree) fmempty
      example_args)))))
     = Some (length (filter first_nonspace_is_hash
         (splitlines (''# top.md'' @ newline @ newline @ ''Converted from /src/top.md'')))) \<and>
   length (token_starts (''# top.md'' @ newline @ newline @ ''Converted from /src/top.md'')) = 5 \<and>
   length (filter first_nonspace_is_hash
      (splitlines (''# top.md'' @ newline @ newline @ ''Converted from /src/top.md''))) = 1"
proof -
  define run where "run = bulk_convert example_conv (Some example_tree) fmempty example_args"
  define x where "x = hd (br_files (projr (snd run)))"
  let ?t = "''# top.md'' @ newline @ newline @ ''Converted from /src/top.md''"
  have ok: "\<not> isl (snd run)" unfolding run_def by code_simp
  have n: "br_files (projr (snd run)) \<noteq> []" unfolding run_def by code_simp
  have st: "fr_status x = Converted" unfolding x_def run_def by code_simp
  have src: "fr_src x = [''src'', ''top.md'']" unfolding x_def run_def by code_simp
  have c: "example_conv [''src'', ''top.md''] = Inr ?t" by code_simp
  have w5: "length (token_starts ?t) = 5" by code_simp
  have h1: "length (filter first_nonspace_is_hash (splitlines ?t)) = 1" by code_simp
  have "run = (fst run, Inr (projr (snd run)))"
    using ok by (cases run; cases "snd run") auto
  then have b: "bulk_convert example_conv (Some example_tree) fmempty example_args
      = (fst run, Inr (projr (snd run)))"
    by (simp only: run_def)
  have m: "x \<in> set (br_files (projr (snd run)))" unfolding x_def using n by simp
  from C8_counts[where conv = example_conv and root_tree = "Some example_tree" and fs = fmempty
      and args = example_args and w = "fst run" and r = "projr (snd run)"] b m st
  have "\<exists>md_text. example_conv (fr_src x) = Inr md_text \<and>
          fr_words x = Some (length (token_starts md_text)) \<and>
          fr_headings x = Some (length (filter first_nonspace_is_hash (splitlines md_text)))"
    by blast
  then have cnt: "fr_words x = Some (length (token_starts ?t))"
      "fr_headings x = Some (length (filter first_nonspace_is_hash (splitlines ?t)))"
    unfolding src c by auto
  show ?thesis
    using ok st src c cnt w5 h1 unfolding x_def run_def by blast
qed


end
